theory Spec2Isabelle
  imports Main "HOL-Library.List_Lexorder" "HOL-Library.Char_ord" "HOL-Library.Monad_Syntax"
begin

section \<open>Session persistence: the data model\<close>

text \<open>
  The TypeScript interfaces of the session persistence module, one record each.
  A \<open>number\<close> is an \<open>int\<close> (the counters and durations of a session are integers), an
  optional property \<open>p?: T\<close> is a \<open>T option\<close> (absent and \<open>undefined\<close> are both
  \<open>None\<close>: \<open>JSON.stringify\<close> drops either), and the string-literal unions
  \<open>SessionStatus\<close>, \<open>TrackerTaskStatus\<close> and \<open>IterationResult['status']\<close> are the strings
  they are at run time. An ISO-8601 time stamp is the string \<open>toISOString\<close> returns; such
  strings are ordered as JavaScript orders strings, character by character.
\<close>

type_synonym SessionStatus = string
type_synonym TrackerTaskStatus = string
type_synonym IterationStatus = string

text \<open>
  Modelled from the spec: \<open>TrackerTask\<close> is declared in \<open>plugins/trackers/types\<close>, which is
  not among the sources. The spec gives a task as
  \<open>{id, title, description?, status, priority?}\<close>; the session module reads \<open>id\<close>,
  \<open>title\<close> and \<open>status\<close>.
\<close>

record TrackerTask =
  id :: string
  title :: string
  description :: "string option"
  status :: TrackerTaskStatus
  priority :: "int option"

text \<open>
  Modelled from the spec: \<open>IterationResult\<close> is declared in \<open>engine/types\<close>, which is not
  among the sources. The spec gives it as
  \<open>{iteration, status, task, taskCompleted, durationMs, error?, startedAt, endedAt}\<close>,
  the fields \<open>updateSessionAfterIteration\<close> reads.
\<close>

record IterationResult =
  iteration :: int
  status :: IterationStatus
  task :: TrackerTask
  taskCompleted :: bool
  durationMs :: int
  error :: "string option"
  startedAt :: string
  endedAt :: string

record TaskStatusSnapshot =
  id :: string
  title :: string
  status :: TrackerTaskStatus
  completedInSession :: bool

record TrackerStateSnapshot =
  plugin :: string
  epicId :: "string option"
  prdPath :: "string option"
  totalTasks :: int
  tasks :: "TaskStatusSnapshot list"

record PersistedIterationResult =
  iteration :: int
  status :: IterationStatus
  taskId :: string
  taskTitle :: string
  taskCompleted :: bool
  durationMs :: int
  error :: "string option"
  startedAt :: string
  endedAt :: string

text \<open>The argument object of \<open>createPersistedSession\<close>.\<close>

record CreateOptions =
  sessionId :: string
  agentPlugin :: string
  model :: "string option"
  trackerPlugin :: string
  epicId :: "string option"
  prdPath :: "string option"
  maxIterations :: int
  tasks :: "TrackerTask list"
  cwd :: string

record PersistedSessionState =
  version :: int
  sessionId :: string
  status :: SessionStatus
  startedAt :: string
  updatedAt :: string
  pausedAt :: "string option"
  currentIteration :: int
  maxIterations :: int
  tasksCompleted :: int
  isPaused :: bool
  agentPlugin :: string
  model :: "string option"
  trackerState :: TrackerStateSnapshot
  iterations :: "PersistedIterationResult list"
  skippedTaskIds :: "string list"
  cwd :: string


section \<open>The session mutators\<close>

text \<open>
  The mutators are pure functions of the state. Those that read the clock
  (\<open>new Date().toISOString()\<close>) take the reading as the argument \<open>now\<close>.
\<close>

definition createPersistedSession :: "string \<Rightarrow> CreateOptions \<Rightarrow> PersistedSessionState" where
  "createPersistedSession now options =
     \<lparr> version = 1,
       sessionId = CreateOptions.sessionId options,
       status = ''running'',
       startedAt = now,
       updatedAt = now,
       pausedAt = None,
       currentIteration = 0,
       maxIterations = CreateOptions.maxIterations options,
       tasksCompleted = 0,
       isPaused = False,
       agentPlugin = CreateOptions.agentPlugin options,
       model = CreateOptions.model options,
       trackerState =
         \<lparr> TrackerStateSnapshot.plugin = CreateOptions.trackerPlugin options,
           epicId = CreateOptions.epicId options,
           prdPath = CreateOptions.prdPath options,
           totalTasks = int (length (CreateOptions.tasks options)),
           tasks = map (\<lambda>task.
               \<lparr> TaskStatusSnapshot.id = TrackerTask.id task,
                 title = TrackerTask.title task,
                 status = TrackerTask.status task,
                 completedInSession = False \<rparr>)
             (CreateOptions.tasks options) \<rparr>,
       iterations = [],
       skippedTaskIds = [],
       cwd = CreateOptions.cwd options \<rparr>"

definition iterationRecord :: "IterationResult \<Rightarrow> PersistedIterationResult" where
  "iterationRecord result =
     \<lparr> PersistedIterationResult.iteration = IterationResult.iteration result,
       status = IterationResult.status result,
       taskId = TrackerTask.id (task result),
       taskTitle = TrackerTask.title (task result),
       taskCompleted = IterationResult.taskCompleted result,
       durationMs = IterationResult.durationMs result,
       error = IterationResult.error result,
       startedAt = IterationResult.startedAt result,
       endedAt = IterationResult.endedAt result \<rparr>"

definition updatedTasks :: "PersistedSessionState \<Rightarrow> IterationResult \<Rightarrow> TaskStatusSnapshot list" where
  "updatedTasks state result =
     map (\<lambda>t.
         if TaskStatusSnapshot.id t = TrackerTask.id (task result)
            \<and> IterationResult.taskCompleted result
         then t\<lparr> TaskStatusSnapshot.status := ''completed'', completedInSession := True \<rparr>
         else t)
       (TrackerStateSnapshot.tasks (trackerState state))"

definition updateSessionAfterIteration ::
  "PersistedSessionState \<Rightarrow> IterationResult \<Rightarrow> PersistedSessionState" where
  "updateSessionAfterIteration state result =
     state\<lparr> currentIteration := IterationResult.iteration result,
            tasksCompleted :=
              (if IterationResult.taskCompleted result
               then tasksCompleted state + 1 else tasksCompleted state),
            trackerState :=
              (trackerState state)\<lparr> TrackerStateSnapshot.tasks := updatedTasks state result \<rparr>,
            iterations := iterations state @ [iterationRecord result] \<rparr>"

definition pauseSession :: "string \<Rightarrow> PersistedSessionState \<Rightarrow> PersistedSessionState" where
  "pauseSession now state =
     state\<lparr> status := ''paused'', isPaused := True, pausedAt := Some now \<rparr>"

definition resumePersistedSession :: "PersistedSessionState \<Rightarrow> PersistedSessionState" where
  "resumePersistedSession state =
     state\<lparr> status := ''running'', isPaused := False, pausedAt := None \<rparr>"

definition completeSession :: "PersistedSessionState \<Rightarrow> PersistedSessionState" where
  "completeSession state = state\<lparr> status := ''completed'', isPaused := False \<rparr>"

definition failSession :: "PersistedSessionState \<Rightarrow> string option \<Rightarrow> PersistedSessionState" where
  "failSession state unused_error = state\<lparr> status := ''failed'', isPaused := False \<rparr>"

definition addSkippedTask :: "PersistedSessionState \<Rightarrow> string \<Rightarrow> PersistedSessionState" where
  "addSkippedTask state task_id =
     (if task_id \<in> set (skippedTaskIds state) then state
      else state\<lparr> skippedTaskIds := skippedTaskIds state @ [task_id] \<rparr>)"

definition isSessionResumable :: "PersistedSessionState \<Rightarrow> bool" where
  "isSessionResumable state =
     (status state = ''paused'' \<or> status state = ''running'' \<or> status state = ''interrupted'')"


section \<open>JSON values and their text\<close>

text \<open>
  A JSON value, with numbers restricted to integers, and an object as the list of its
  properties in the order \<open>JSON.stringify\<close> visits them. \<open>SerializeJSON\<close> follows the
  serialisation of ECMA-262: \<open>gap\<close> is the indentation unit, empty for the compact form
  of \<open>JSON.stringify(v)\<close> and \<open>n\<close> spaces for \<open>JSON.stringify(v, null, n)\<close>; a string is
  put between \<open>"\<close> with \<open>"\<close>, \<open>\\<close> and the control characters escaped; an integer is
  written with all its digits. The functions that call \<open>JSON.parse\<close> take the parser as
  the argument \<open>JSON_parse\<close>, which answers \<open>None\<close> where \<open>JSON.parse\<close> throws; the
  parser itself is \<open>ParseJSON\<close>, defined in the next section.
\<close>

datatype json =
    JNull
  | JBool bool
  | JNum int
  | JStr string
  | JArr "json list"
  | JObj "(string \<times> json) list"

definition hex_digit :: "nat \<Rightarrow> char" where
  "hex_digit d = (if d < 10 then char_of (48 + d) else char_of (87 + d))"

definition quote_char :: "char \<Rightarrow> string" where
  "quote_char c =
     (if c = CHR 0x22 then [CHR 0x5C, CHR 0x22]
      else if c = CHR 0x5C then [CHR 0x5C, CHR 0x5C]
      else if c = CHR 0x08 then [CHR 0x5C, CHR ''b'']
      else if c = CHR 0x0C then [CHR 0x5C, CHR ''f'']
      else if c = CHR 0x0A then [CHR 0x5C, CHR ''n'']
      else if c = CHR 0x0D then [CHR 0x5C, CHR ''r'']
      else if c = CHR 0x09 then [CHR 0x5C, CHR ''t'']
      else if (of_char c :: nat) < 32
        then [CHR 0x5C, CHR ''u'', CHR ''0'', CHR ''0'',
              hex_digit (of_char c div 16), hex_digit (of_char c mod 16)]
      else [c])"

definition QuoteJSONString :: "string \<Rightarrow> string" where
  "QuoteJSONString s = [CHR 0x22] @ concat (map quote_char s) @ [CHR 0x22]"

fun digits :: "nat \<Rightarrow> string" where
  "digits n = (if n < 10 then [char_of (48 + n)] else digits (n div 10) @ [char_of (48 + n mod 10)])"

declare digits.simps [simp del]

definition NumberToString :: "int \<Rightarrow> string" where
  "NumberToString i = (if i < 0 then ''-'' @ digits (nat (- i)) else digits (nat i))"

fun intercalate :: "string \<Rightarrow> string list \<Rightarrow> string" where
  "intercalate sep [] = []"
| "intercalate sep [x] = x"
| "intercalate sep (x # y # ys) = x @ sep @ intercalate sep (y # ys)"

fun SerializeJSON :: "string \<Rightarrow> string \<Rightarrow> json \<Rightarrow> string" where
  "SerializeJSON gap indent JNull = ''null''"
| "SerializeJSON gap indent (JBool b) = (if b then ''true'' else ''false'')"
| "SerializeJSON gap indent (JNum n) = NumberToString n"
| "SerializeJSON gap indent (JStr s) = QuoteJSONString s"
| "SerializeJSON gap indent (JArr vs) =
     (let stepback = indent; indent = indent @ gap;
          partial = map (SerializeJSON gap indent) vs
      in if partial = [] then ''[]''
         else if gap = [] then ''['' @ intercalate '','' partial @ '']''
         else ''['' @ [CHR 0x0A] @ indent @ intercalate ('','' @ [CHR 0x0A] @ indent) partial
              @ [CHR 0x0A] @ stepback @ '']'')"
| "SerializeJSON gap indent (JObj kvs) =
     (let stepback = indent; indent = indent @ gap;
          partial = map (\<lambda>(k, v).
              QuoteJSONString k @ (if gap = [] then '':'' else '': '') @ SerializeJSON gap indent v) kvs
      in if partial = [] then ''{}''
         else if gap = [] then ''{'' @ intercalate '','' partial @ ''}''
         else ''{'' @ [CHR 0x0A] @ indent @ intercalate ('','' @ [CHR 0x0A] @ indent) partial
              @ [CHR 0x0A] @ stepback @ ''}'')"

definition JSON_stringify :: "json \<Rightarrow> string" where
  "JSON_stringify v = SerializeJSON [] [] v"

definition JSON_stringify_indent :: "nat \<Rightarrow> json \<Rightarrow> string" where
  "JSON_stringify_indent n v = SerializeJSON (replicate (min n 10) CHR '' '') [] v"


subsection \<open>Session values as JSON\<close>

text \<open>
  A session state as the JSON value \<open>JSON.stringify\<close> sees: one property for each field,
  none for an optional field that is absent or \<open>undefined\<close>. Conversely
  \<open>as_PersistedSessionState\<close> reads a parsed value through the interface: it gives the
  record when every property has the type the interface declares, an absent optional
  property being \<open>None\<close>.
\<close>

definition opt_prop :: "string \<Rightarrow> ('a \<Rightarrow> json) \<Rightarrow> 'a option \<Rightarrow> (string \<times> json) list" where
  "opt_prop k f x = (case x of None \<Rightarrow> [] | Some y \<Rightarrow> [(k, f y)])"

definition TaskStatusSnapshot_json :: "TaskStatusSnapshot \<Rightarrow> json" where
  "TaskStatusSnapshot_json t =
     JObj [(''id'', JStr (TaskStatusSnapshot.id t)),
           (''title'', JStr (TaskStatusSnapshot.title t)),
           (''status'', JStr (TaskStatusSnapshot.status t)),
           (''completedInSession'', JBool (completedInSession t))]"

definition TrackerStateSnapshot_json :: "TrackerStateSnapshot \<Rightarrow> json" where
  "TrackerStateSnapshot_json ts =
     JObj ([(''plugin'', JStr (plugin ts))]
           @ opt_prop ''epicId'' JStr (TrackerStateSnapshot.epicId ts)
           @ opt_prop ''prdPath'' JStr (TrackerStateSnapshot.prdPath ts)
           @ [(''totalTasks'', JNum (totalTasks ts)),
              (''tasks'', JArr (map TaskStatusSnapshot_json (TrackerStateSnapshot.tasks ts)))])"

definition PersistedIterationResult_json :: "PersistedIterationResult \<Rightarrow> json" where
  "PersistedIterationResult_json r =
     JObj ([(''iteration'', JNum (PersistedIterationResult.iteration r)),
            (''status'', JStr (PersistedIterationResult.status r)),
            (''taskId'', JStr (taskId r)),
            (''taskTitle'', JStr (taskTitle r)),
            (''taskCompleted'', JBool (PersistedIterationResult.taskCompleted r)),
            (''durationMs'', JNum (PersistedIterationResult.durationMs r))]
           @ opt_prop ''error'' JStr (PersistedIterationResult.error r)
           @ [(''startedAt'', JStr (PersistedIterationResult.startedAt r)),
              (''endedAt'', JStr (PersistedIterationResult.endedAt r))])"

definition PersistedSessionState_json :: "PersistedSessionState \<Rightarrow> json" where
  "PersistedSessionState_json s =
     JObj ([(''version'', JNum (version s)),
            (''sessionId'', JStr (sessionId s)),
            (''status'', JStr (status s)),
            (''startedAt'', JStr (startedAt s)),
            (''updatedAt'', JStr (updatedAt s))]
           @ opt_prop ''pausedAt'' JStr (pausedAt s)
           @ [(''currentIteration'', JNum (currentIteration s)),
              (''maxIterations'', JNum (maxIterations s)),
              (''tasksCompleted'', JNum (tasksCompleted s)),
              (''isPaused'', JBool (isPaused s)),
              (''agentPlugin'', JStr (agentPlugin s))]
           @ opt_prop ''model'' JStr (model s)
           @ [(''trackerState'', TrackerStateSnapshot_json (trackerState s)),
              (''iterations'', JArr (map PersistedIterationResult_json (iterations s))),
              (''skippedTaskIds'', JArr (map JStr (skippedTaskIds s))),
              (''cwd'', JStr (cwd s))])"

text \<open>Reading a property with the type an interface gives it.\<close>

definition get_string :: "(string \<times> json) list \<Rightarrow> string \<Rightarrow> string option" where
  "get_string kvs k = (case map_of kvs k of Some (JStr x) \<Rightarrow> Some x | _ \<Rightarrow> None)"

definition get_optional_string :: "(string \<times> json) list \<Rightarrow> string \<Rightarrow> string option option" where
  "get_optional_string kvs k =
     (case map_of kvs k of None \<Rightarrow> Some None | Some (JStr x) \<Rightarrow> Some (Some x) | _ \<Rightarrow> None)"

definition get_number :: "(string \<times> json) list \<Rightarrow> string \<Rightarrow> int option" where
  "get_number kvs k = (case map_of kvs k of Some (JNum x) \<Rightarrow> Some x | _ \<Rightarrow> None)"

definition get_boolean :: "(string \<times> json) list \<Rightarrow> string \<Rightarrow> bool option" where
  "get_boolean kvs k = (case map_of kvs k of Some (JBool x) \<Rightarrow> Some x | _ \<Rightarrow> None)"

definition get_array :: "(json \<Rightarrow> 'a option) \<Rightarrow> (string \<times> json) list \<Rightarrow> string \<Rightarrow> 'a list option" where
  "get_array f kvs k =
     (case map_of kvs k of
        Some (JArr vs) \<Rightarrow> (if list_all (\<lambda>v. f v \<noteq> None) vs then Some (map (\<lambda>v. the (f v)) vs) else None)
      | _ \<Rightarrow> None)"

definition as_string :: "json \<Rightarrow> string option" where
  "as_string v = (case v of JStr x \<Rightarrow> Some x | _ \<Rightarrow> None)"

definition as_TaskStatusSnapshot :: "json \<Rightarrow> TaskStatusSnapshot option" where
  "as_TaskStatusSnapshot v =
     (case v of
        JObj kvs \<Rightarrow> do {
          v_id \<leftarrow> get_string kvs ''id'';
          v_title \<leftarrow> get_string kvs ''title'';
          v_status \<leftarrow> get_string kvs ''status'';
          v_completed \<leftarrow> get_boolean kvs ''completedInSession'';
          Some \<lparr> TaskStatusSnapshot.id = v_id, title = v_title, status = v_status,
                 completedInSession = v_completed \<rparr> }
      | _ \<Rightarrow> None)"

definition as_TrackerStateSnapshot :: "json \<Rightarrow> TrackerStateSnapshot option" where
  "as_TrackerStateSnapshot v =
     (case v of
        JObj kvs \<Rightarrow> do {
          v_plugin \<leftarrow> get_string kvs ''plugin'';
          v_epicId \<leftarrow> get_optional_string kvs ''epicId'';
          v_prdPath \<leftarrow> get_optional_string kvs ''prdPath'';
          v_totalTasks \<leftarrow> get_number kvs ''totalTasks'';
          v_tasks \<leftarrow> get_array as_TaskStatusSnapshot kvs ''tasks'';
          Some \<lparr> TrackerStateSnapshot.plugin = v_plugin, epicId = v_epicId, prdPath = v_prdPath,
                 totalTasks = v_totalTasks, tasks = v_tasks \<rparr> }
      | _ \<Rightarrow> None)"

definition as_PersistedIterationResult :: "json \<Rightarrow> PersistedIterationResult option" where
  "as_PersistedIterationResult v =
     (case v of
        JObj kvs \<Rightarrow> do {
          v_iteration \<leftarrow> get_number kvs ''iteration'';
          v_status \<leftarrow> get_string kvs ''status'';
          v_taskId \<leftarrow> get_string kvs ''taskId'';
          v_taskTitle \<leftarrow> get_string kvs ''taskTitle'';
          v_taskCompleted \<leftarrow> get_boolean kvs ''taskCompleted'';
          v_durationMs \<leftarrow> get_number kvs ''durationMs'';
          v_error \<leftarrow> get_optional_string kvs ''error'';
          v_startedAt \<leftarrow> get_string kvs ''startedAt'';
          v_endedAt \<leftarrow> get_string kvs ''endedAt'';
          Some \<lparr> PersistedIterationResult.iteration = v_iteration, status = v_status,
                 taskId = v_taskId, taskTitle = v_taskTitle, taskCompleted = v_taskCompleted,
                 durationMs = v_durationMs, error = v_error, startedAt = v_startedAt,
                 endedAt = v_endedAt \<rparr> }
      | _ \<Rightarrow> None)"



section \<open>Reading JSON text\<close>

text \<open>
  \<open>ParseJSON\<close> reads a text by the JSON grammar, as \<open>JSON.parse\<close> does, and answers
  \<open>None\<close> where \<open>JSON.parse\<close> throws a \<open>SyntaxError\<close>: white space is space, tab, line
  feed and carriage return; a string stands between \<open>"\<close>, with the escapes of the
  grammar and no raw control character; a number is an optional minus sign and digits
  without a leading zero; an array and an object list their parts between brackets and
  braces, separated by commas; and after the value only white space may follow. Of two
  properties with the same key the later value is kept, at the place of the first. What
  the type \<open>json\<close> cannot hold has no value here and is answered with \<open>None\<close> as well: a
  number with a fraction or an exponent, and an escape \<open>\u\<close> above \<open>00ff\<close>. The parser
  descends into arrays and objects on a counter that starts at the length of the text;
  the theorems below show that this is enough for every text \<open>JSON.stringify\<close> writes.
\<close>

definition is_whitespace :: "char \<Rightarrow> bool" where
  "is_whitespace c \<longleftrightarrow> c = CHR 0x20 \<or> c = CHR 0x09 \<or> c = CHR 0x0A \<or> c = CHR 0x0D"

definition skip_whitespace :: "string \<Rightarrow> string" where
  "skip_whitespace cs = dropWhile is_whitespace cs"

definition is_digit :: "char \<Rightarrow> bool" where
  "is_digit c \<longleftrightarrow> 48 \<le> (of_char c :: nat) \<and> (of_char c :: nat) \<le> 57"

definition digit_value :: "char \<Rightarrow> nat" where
  "digit_value c = of_char c - 48"

definition hex_value :: "char \<Rightarrow> nat option" where
  "hex_value c =
     (let n = (of_char c :: nat) in
      if 48 \<le> n \<and> n \<le> 57 then Some (n - 48)
      else if 97 \<le> n \<and> n \<le> 102 then Some (n - 87)
      else if 65 \<le> n \<and> n \<le> 70 then Some (n - 55)
      else None)"

definition unescape :: "char \<Rightarrow> char option" where
  "unescape e =
     (if e = CHR 0x22 then Some (CHR 0x22)
      else if e = CHR 0x5C then Some (CHR 0x5C)
      else if e = CHR ''/'' then Some (CHR ''/'')
      else if e = CHR ''b'' then Some (CHR 0x08)
      else if e = CHR ''f'' then Some (CHR 0x0C)
      else if e = CHR ''n'' then Some (CHR 0x0A)
      else if e = CHR ''r'' then Some (CHR 0x0D)
      else if e = CHR ''t'' then Some (CHR 0x09)
      else None)"

definition unicode_escape :: "string \<Rightarrow> char option" where
  "unicode_escape hs =
     (case map hex_value hs of
        [Some a, Some b, Some c, Some d] \<Rightarrow>
          (if a = 0 \<and> b = 0 then Some (char_of (16 * c + d)) else None)
      | _ \<Rightarrow> None)"

fun parse_chars :: "string \<Rightarrow> (string \<times> string) option" where
  "parse_chars [] = None"
| "parse_chars (c # cs) =
     (if c = CHR 0x22 then Some ([], cs)
      else if c = CHR 0x5C then
        (case cs of
           [] \<Rightarrow> None
         | e # cs1 \<Rightarrow>
             (if e = CHR ''u'' then
                (case unicode_escape (take 4 cs1) of
                   None \<Rightarrow> None
                 | Some ch \<Rightarrow> map_option (apfst ((#) ch)) (parse_chars (drop 4 cs1)))
              else
                (case unescape e of
                   None \<Rightarrow> None
                 | Some ch \<Rightarrow> map_option (apfst ((#) ch)) (parse_chars cs1))))
      else if (of_char c :: nat) < 32 then None
      else map_option (apfst ((#) c)) (parse_chars cs))"

definition digits_value :: "string \<Rightarrow> nat" where
  "digits_value ds = foldl (\<lambda>n d. 10 * n + digit_value d) 0 ds"

definition parse_digits :: "string \<Rightarrow> (nat \<times> string) option" where
  "parse_digits cs =
     (let ds = takeWhile is_digit cs in
      if ds = [] then None
      else if hd ds = CHR ''0'' \<and> 1 < length ds then None
      else Some (digits_value ds, dropWhile is_digit cs))"

definition parse_number :: "string \<Rightarrow> (json \<times> string) option" where
  "parse_number cs =
     (case cs of
        [] \<Rightarrow> None
      | c # r \<Rightarrow>
          (if c = CHR ''-'' then map_option (apfst (\<lambda>n. JNum (- int n))) (parse_digits r)
           else map_option (apfst (\<lambda>n. JNum (int n))) (parse_digits cs)))"

fun set_property :: "string \<Rightarrow> json \<Rightarrow> (string \<times> json) list \<Rightarrow> (string \<times> json) list" where
  "set_property k v [] = [(k, v)]"
| "set_property k v (p # ps) = (if fst p = k then (k, v) # ps else p # set_property k v ps)"

definition object_of :: "(string \<times> json) list \<Rightarrow> json" where
  "object_of members = JObj (foldl (\<lambda>props (k, v). set_property k v props) [] members)"

fun strip_prefix :: "string \<Rightarrow> string \<Rightarrow> string option" where
  "strip_prefix [] cs = Some cs"
| "strip_prefix (p # ps) [] = None"
| "strip_prefix (p # ps) (c # cs) = (if p = c then strip_prefix ps cs else None)"

fun parse_value :: "nat \<Rightarrow> string \<Rightarrow> (json \<times> string) option"
  and parse_elements :: "nat \<Rightarrow> string \<Rightarrow> (json list \<times> string) option"
  and parse_members :: "nat \<Rightarrow> string \<Rightarrow> ((string \<times> json) list \<times> string) option" where
  "parse_value 0 cs = None"
| "parse_value (Suc fuel) cs =
     (case skip_whitespace cs of
        [] \<Rightarrow> None
      | c # r \<Rightarrow>
          (if c = CHR 0x22 then map_option (apfst JStr) (parse_chars r)
           else if c = CHR ''['' then
             (case skip_whitespace r of
                [] \<Rightarrow> None
              | c1 # r1 \<Rightarrow>
                  (if c1 = CHR '']'' then Some (JArr [], r1)
                   else map_option (apfst JArr) (parse_elements fuel r)))
           else if c = CHR ''{'' then
             (case skip_whitespace r of
                [] \<Rightarrow> None
              | c1 # r1 \<Rightarrow>
                  (if c1 = CHR ''}'' then Some (JObj [], r1)
                   else map_option (apfst object_of) (parse_members fuel r)))
           else if c = CHR ''n'' then map_option (Pair JNull) (strip_prefix ''ull'' r)
           else if c = CHR ''t'' then map_option (Pair (JBool True)) (strip_prefix ''rue'' r)
           else if c = CHR ''f'' then map_option (Pair (JBool False)) (strip_prefix ''alse'' r)
           else parse_number (c # r)))"
| "parse_elements 0 cs = None"
| "parse_elements (Suc fuel) cs =
     (case parse_value fuel cs of
        None \<Rightarrow> None
      | Some (v, r) \<Rightarrow>
          (case skip_whitespace r of
             [] \<Rightarrow> None
           | c # r1 \<Rightarrow>
               (if c = CHR '','' then map_option (apfst ((#) v)) (parse_elements fuel r1)
                else if c = CHR '']'' then Some ([v], r1)
                else None)))"
| "parse_members 0 cs = None"
| "parse_members (Suc fuel) cs =
     (case skip_whitespace cs of
        [] \<Rightarrow> None
      | q # r \<Rightarrow>
          (if q \<noteq> CHR 0x22 then None
           else
             (case parse_chars r of
                None \<Rightarrow> None
              | Some (k, r1) \<Rightarrow>
                  (case skip_whitespace r1 of
                     [] \<Rightarrow> None
                   | c # r2 \<Rightarrow>
                       (if c \<noteq> CHR '':'' then None
                        else
                          (case parse_value fuel r2 of
                             None \<Rightarrow> None
                           | Some (v, r3) \<Rightarrow>
                               (case skip_whitespace r3 of
                                  [] \<Rightarrow> None
                                | c1 # r4 \<Rightarrow>
                                    (if c1 = CHR '','' then
                                       map_option (apfst ((#) (k, v))) (parse_members fuel r4)
                                     else if c1 = CHR ''}'' then Some ([(k, v)], r4)
                                     else None))))))))"

definition ParseJSON :: "string \<Rightarrow> json option" where
  "ParseJSON text =
     (case parse_value (length text) text of
        None \<Rightarrow> None
      | Some (v, r) \<Rightarrow> (if skip_whitespace r = [] then Some v else None))"

text \<open>
  For the proof that the parser reads back what the serialiser writes: \<open>distinct_keys\<close>
  says that no object of a value has two properties with the same key; \<open>blank\<close> is text
  of white space only, and \<open>ends_number\<close> text that does not go on with a digit;
  \<open>line_break\<close> and \<open>member_text\<close> name the pieces \<open>SerializeJSON\<close> puts together;
  \<open>reads_back\<close> says that \<open>parse_value\<close>, given at least as much on its counter as
  the text of the value is long, reads the value and leaves what follows.
\<close>

fun distinct_keys :: "json \<Rightarrow> bool" where
  "distinct_keys (JArr vs) = (\<forall>v \<in> set vs. distinct_keys v)"
| "distinct_keys (JObj kvs) = (distinct (map fst kvs) \<and> (\<forall>(k, v) \<in> set kvs. distinct_keys v))"
| "distinct_keys v = True"

definition blank :: "string \<Rightarrow> bool" where
  "blank w \<longleftrightarrow> (\<forall>c \<in> set w. is_whitespace c)"

definition ends_number :: "string \<Rightarrow> bool" where
  "ends_number rest \<longleftrightarrow> (case rest of [] \<Rightarrow> True | c # r \<Rightarrow> \<not> is_digit c)"

definition line_break :: "string \<Rightarrow> string \<Rightarrow> string" where
  "line_break gap indent = (if gap = [] then [] else CHR 0x0A # indent)"

definition member_text :: "string \<Rightarrow> string \<Rightarrow> string \<times> json \<Rightarrow> string" where
  "member_text gap indent kv =
     QuoteJSONString (fst kv) @ CHR '':'' # (if gap = [] then [] else '' '')
       @ SerializeJSON gap indent (snd kv)"

definition reads_back :: "string \<Rightarrow> string \<Rightarrow> json \<Rightarrow> bool" where
  "reads_back gap indent v \<longleftrightarrow>
     (\<forall>fuel w rest. blank w \<longrightarrow> ends_number rest \<longrightarrow> length (SerializeJSON gap indent v) \<le> fuel
        \<longrightarrow> parse_value fuel (w @ SerializeJSON gap indent v @ rest) = Some (v, rest))"


section \<open>The session file\<close>

text \<open>
  The functions that read and write the session file are \<open>async\<close> and act on the file
  system and the console. Here they take the world and return it with their result: the
  files (a path names a file with its text, a directory, or nothing), the file-system
  calls made so far, in order, and the messages written by \<open>console.warn\<close>. \<open>fs_call\<close>
  lists the calls of \<open>node:fs/promises\<close> that writing a file can involve. A rejected
  promise or a thrown exception is an \<open>Inl\<close> result. Directories above a file are not
  modelled: \<open>readFile\<close> fails with \<open>ENOENT\<close> on a missing file and with \<open>EISDIR\<close> on a
  directory, \<open>writeFile\<close> only with \<open>EISDIR\<close>.
\<close>

datatype node = File string | Dir

datatype errno = ENOENT | EISDIR

datatype error = Errno errno | SyntaxError | TypeError

datatype fs_call =
    ReadFile string
  | WriteFile string string
  | Fsync string
  | Rename string string

datatype console_message = UnknownVersion "json option"

record world =
  files :: "string \<rightharpoonup> node"
  calls :: "fs_call list"
  console :: "console_message list"

definition readFile :: "string \<Rightarrow> world \<Rightarrow> (errno + string) \<times> world" where
  "readFile path w =
     (case files w path of
        None \<Rightarrow> Inl ENOENT
      | Some Dir \<Rightarrow> Inl EISDIR
      | Some (File content) \<Rightarrow> Inr content,
      w\<lparr> calls := calls w @ [ReadFile path] \<rparr>)"

definition writeFile :: "string \<Rightarrow> string \<Rightarrow> world \<Rightarrow> (errno + unit) \<times> world" where
  "writeFile path content w =
     (case files w path of
        Some Dir \<Rightarrow> (Inl EISDIR, w\<lparr> calls := calls w @ [WriteFile path content] \<rparr>)
      | _ \<Rightarrow> (Inr (), w\<lparr> files := (files w)(path \<mapsto> File content),
                          calls := calls w @ [WriteFile path content] \<rparr>))"

definition console_warn :: "console_message \<Rightarrow> world \<Rightarrow> world" where
  "console_warn m w = w\<lparr> console := console w @ [m] \<rparr>"

text \<open>
  Reading a property of a parsed value, as \<open>parsed.version\<close> does: on \<open>null\<close> it throws a
  \<open>TypeError\<close>, on an object it gives the property or \<open>undefined\<close> (\<open>None\<close>), and on any
  other value of JSON (which has no such property) \<open>undefined\<close>.
\<close>

definition property :: "json \<Rightarrow> string \<Rightarrow> error + json option" where
  "property v k =
     (case v of
        JNull \<Rightarrow> Inl TypeError
      | JObj kvs \<Rightarrow> Inr (map_of kvs k)
      | _ \<Rightarrow> Inr None)"

definition SESSION_FILE :: string where
  "SESSION_FILE = ''.ralph-tui-session.json''"

text \<open>
  \<open>path.join\<close>, for a directory written without a trailing separator or dot segments;
  load and save both go through \<open>getSessionFilePath\<close>.
\<close>

definition join :: "string \<Rightarrow> string \<Rightarrow> string" where
  "join dir name = dir @ ''/'' @ name"

definition getSessionFilePath :: "string \<Rightarrow> string" where
  "getSessionFilePath dir = join dir SESSION_FILE"

text \<open>
  \<open>loadPersistedSession\<close> returns the parsed value as it is (the cast to
  \<open>PersistedSessionState\<close> checks nothing), \<open>None\<close> for \<open>null\<close>. The \<open>catch\<close> block turns
  an \<open>ENOENT\<close> into \<open>null\<close> and throws anything else again: another error of
  \<open>readFile\<close>, the \<open>SyntaxError\<close> of \<open>JSON.parse\<close>, the \<open>TypeError\<close> of reading
  \<open>version\<close> from \<open>null\<close>.
\<close>

definition loadPersistedSession ::
  "(string \<Rightarrow> json option) \<Rightarrow> string \<Rightarrow> world \<Rightarrow> (error + json option) \<times> world" where
  "loadPersistedSession JSON_parse dir w =
     (let filePath = getSessionFilePath dir in
      case readFile filePath w of
        (Inl e, w1) \<Rightarrow> (if e = ENOENT then Inr None else Inl (Errno e), w1)
      | (Inr content, w1) \<Rightarrow>
          (case JSON_parse content of
             None \<Rightarrow> (Inl SyntaxError, w1)
           | Some parsed \<Rightarrow>
               (case property parsed ''version'' of
                  Inl e \<Rightarrow> (Inl e, w1)
                | Inr v \<Rightarrow>
                    (Inr (Some parsed),
                     if v \<noteq> Some (JNum 1) then console_warn (UnknownVersion v) w1 else w1))))"

text \<open>
  \<open>savePersistedSession\<close> builds \<open>updatedState\<close>, the state with \<open>updatedAt\<close> set to the
  clock reading \<open>now\<close>, and awaits one \<open>writeFile\<close> of its text, indented by 2.
\<close>

definition updatedState :: "string \<Rightarrow> PersistedSessionState \<Rightarrow> PersistedSessionState" where
  "updatedState now state = state\<lparr> updatedAt := now \<rparr>"

definition savePersistedSession ::
  "string \<Rightarrow> PersistedSessionState \<Rightarrow> world \<Rightarrow> (error + unit) \<times> world" where
  "savePersistedSession now state w =
     (let filePath = getSessionFilePath (cwd state) in
      case writeFile filePath
             (JSON_stringify_indent 2 (PersistedSessionState_json (updatedState now state))) w of
        (Inl e, w1) \<Rightarrow> (Inl (Errno e), w1)
      | (Inr u, w1) \<Rightarrow> (Inr (), w1))"

definition empty_world :: world where
  "empty_world = \<lparr> files = Map.empty, calls = [], console = [] \<rparr>"


section \<open>Histories of a session\<close>

text \<open>
  The mutators as operations, to speak of the states a session reaches: a history is a
  list of operations applied in order to a freshly created session. \<open>consecutive n\<close>
  says that the iteration results of a history are numbered \<open>n + 1\<close>, \<open>n + 2\<close>, and so
  on. \<open>completedTaskIds\<close> lists the task ids of the stored records that report their task
  completed.
\<close>

datatype session_op =
    Update IterationResult
  | Pause string
  | Resume
  | Complete
  | Fail "string option"
  | AddSkipped string

fun apply_op :: "PersistedSessionState \<Rightarrow> session_op \<Rightarrow> PersistedSessionState" where
  "apply_op s (Update r) = updateSessionAfterIteration s r"
| "apply_op s (Pause now) = pauseSession now s"
| "apply_op s Resume = resumePersistedSession s"
| "apply_op s Complete = completeSession s"
| "apply_op s (Fail e) = failSession s e"
| "apply_op s (AddSkipped t) = addSkippedTask s t"

fun consecutive :: "int \<Rightarrow> session_op list \<Rightarrow> bool" where
  "consecutive n [] = True"
| "consecutive n (Update r # ops) = (IterationResult.iteration r = n + 1 \<and> consecutive (n + 1) ops)"
| "consecutive n (_ # ops) = consecutive n ops"

definition completedTaskIds :: "PersistedSessionState \<Rightarrow> string list" where
  "completedTaskIds s = map taskId (filter PersistedIterationResult.taskCompleted (iterations s))"

definition session_inv :: "string \<Rightarrow> PersistedSessionState \<Rightarrow> bool" where
  "session_inv t0 s \<longleftrightarrow>
     startedAt s = t0 \<and> updatedAt s = t0
     \<and> int (length (iterations s)) = currentIteration s
     \<and> tasksCompleted s = int (length (completedTaskIds s))
     \<and> totalTasks (trackerState s) = int (length (TrackerStateSnapshot.tasks (trackerState s)))"


section \<open>Constants of the remote module\<close>

text \<open>
  Modelled from the spec: \<open>TOKEN_LIFETIMES\<close> is declared in \<open>remote/types\<close> and
  \<open>DEFAULT_RECONNECT_CONFIG\<close> in \<open>remote/client\<close>; neither file is among the sources,
  only the test that imports them. The spec gives the token lifetimes as 90 days for a
  server token and 24 hours for a connection token, refreshed when less than 1 hour remains,
  and the reconnect defaults as an initial delay of 1000 ms, a maximal delay of 30000 ms,
  a multiplier of 2, 10 retries, and 3 silent retries.
\<close>

record TokenLifetimes =
  SERVER_TOKEN_DAYS :: nat
  CONNECTION_TOKEN_HOURS :: nat
  REFRESH_THRESHOLD_HOURS :: nat

definition TOKEN_LIFETIMES :: TokenLifetimes where
  "TOKEN_LIFETIMES =
     \<lparr> SERVER_TOKEN_DAYS = 90, CONNECTION_TOKEN_HOURS = 24, REFRESH_THRESHOLD_HOURS = 1 \<rparr>"

record ReconnectConfig =
  initialDelayMs :: nat
  maxDelayMs :: nat
  backoffMultiplier :: nat
  maxRetries :: nat
  silentRetryThreshold :: nat

definition DEFAULT_RECONNECT_CONFIG :: ReconnectConfig where
  "DEFAULT_RECONNECT_CONFIG =
     \<lparr> initialDelayMs = 1000, maxDelayMs = 30000, backoffMultiplier = 2,
       maxRetries = 10, silentRetryThreshold = 3 \<rparr>"


section \<open>Extracting JSON objects from agent output\<close>

text \<open>
  \<open>extractJsonObjects\<close> of the Qwen agent plugin. \<open>indexOf\<close> answers \<open>None\<close> where
  JavaScript's answers \<open>-1\<close>; \<open>substring s a b\<close> is \<open>s.substring(a, b)\<close> for
  \<open>a \<le> b\<close>, and \<open>drop a s\<close> is \<open>s.substring(a)\<close>. \<open>scan\<close> is the \<open>for\<close> loop that
  matches the opening brace: its list argument holds the characters of \<open>current\<close> from
  index \<open>i\<close> on, and it answers the index \<open>end\<close>, or \<open>None\<close> where the loop leaves
  \<open>end = -1\<close>. \<open>extractLoop\<close> is the \<open>while (true)\<close> loop; each round that goes on
  shortens \<open>current\<close>, so it always ends.
\<close>

fun indexOf :: "char \<Rightarrow> string \<Rightarrow> nat option" where
  "indexOf c [] = None"
| "indexOf c (x # xs) = (if x = c then Some 0 else map_option Suc (indexOf c xs))"

definition substring :: "string \<Rightarrow> nat \<Rightarrow> nat \<Rightarrow> string" where
  "substring s a b = take (b - a) (drop a s)"

fun scan :: "nat \<Rightarrow> int \<Rightarrow> bool \<Rightarrow> bool \<Rightarrow> string \<Rightarrow> nat option" where
  "scan i depth inString escaped [] = None"
| "scan i depth inString escaped (char # rest) =
     (if escaped then scan (i + 1) depth inString False rest
      else if char = CHR 0x5C then scan (i + 1) depth inString True rest
      else if char = CHR 0x22 then scan (i + 1) depth (\<not> inString) escaped rest
      else if \<not> inString then
        (let depth1 = (if char = CHR ''{'' then depth + 1 else depth);
             depth2 = (if char = CHR ''}'' then depth1 - 1 else depth1)
         in if depth2 = 0 then Some i
            else scan (i + 1) depth2 inString escaped rest)
      else scan (i + 1) depth inString escaped rest)"

function extractLoop :: "(string \<Rightarrow> json option) \<Rightarrow> json list \<Rightarrow> string \<Rightarrow> json list \<times> string" where
  "extractLoop JSON_parse objects current =
     (case indexOf CHR ''{'' current of
        None \<Rightarrow> (objects, [])
      | Some start \<Rightarrow>
          (case scan start 0 False False (drop start current) of
             Some end \<Rightarrow>
               (let jsonStr = substring current start (end + 1) in
                case JSON_parse jsonStr of
                  Some obj \<Rightarrow> extractLoop JSON_parse (objects @ [obj]) (drop (end + 1) current)
                | None \<Rightarrow> extractLoop JSON_parse objects (drop (start + 1) current))
           | None \<Rightarrow> (objects, drop start current)))"
  by pat_completeness auto
termination
proof (relation "measure (\<lambda>(JSON_parse, objects, current). length current)", goal_cases)
  case 1
  show ?case by simp
next
  case (2 JSON_parse objects current start end' obj)
  then have "current \<noteq> []"
    by (cases current) simp_all
  then show ?case by simp
next
  case (3 JSON_parse objects current start end')
  then have "current \<noteq> []"
    by (cases current) simp_all
  then show ?case by simp
qed

declare extractLoop.simps [simp del]

definition extractJsonObjects :: "(string \<Rightarrow> json option) \<Rightarrow> string \<Rightarrow> json list \<times> string" where
  "extractJsonObjects JSON_parse str = extractLoop JSON_parse [] str"


text \<open>The value of a JSON object, and the text of a stream of objects with other text between them.\<close>

definition is_object :: "json \<Rightarrow> bool" where
  "is_object v = (case v of JObj kvs \<Rightarrow> True | _ \<Rightarrow> False)"

definition stream_text :: "(string \<times> json) list \<Rightarrow> string" where
  "stream_text segs = concat (map (\<lambda>(junk, v). junk @ JSON_stringify v) segs)"

text \<open>
  How the brace matcher goes through a piece of text: \<open>passes d xs\<close> says that, outside a
  string at depth \<open>d\<close>, it reads \<open>xs\<close> to its end and is then again outside a string at
  depth \<open>d\<close>; \<open>in_string\<close> says the same inside a string. A plain character is none of
  \<open>"\<close>, \<open>\\<close>, \<open>{\<close> and \<open>}\<close>.
\<close>

definition plain :: "char \<Rightarrow> bool" where
  "plain c \<longleftrightarrow> c \<noteq> CHR 0x22 \<and> c \<noteq> CHR 0x5C \<and> c \<noteq> CHR ''{'' \<and> c \<noteq> CHR ''}''"

definition passes :: "int \<Rightarrow> string \<Rightarrow> bool" where
  "passes d xs \<longleftrightarrow> (\<forall>i rest. scan i d False False (xs @ rest) = scan (i + length xs) d False False rest)"

definition in_string :: "int \<Rightarrow> string \<Rightarrow> bool" where
  "in_string d xs \<longleftrightarrow> (\<forall>i rest. scan i d True False (xs @ rest) = scan (i + length xs) d True False rest)"


section \<open>Example values\<close>

text \<open>Example values, used to exercise the theorems below on concrete inputs.\<close>

definition example_task :: TrackerTask where
  "example_task =
     \<lparr> TrackerTask.id = ''a'', title = ''Task a'', description = None,
       status = ''pending'', priority = Some 2 \<rparr>"

definition example_options :: CreateOptions where
  "example_options =
     \<lparr> CreateOptions.sessionId = ''s-1'', agentPlugin = ''qwen-cli'', model = None,
       trackerPlugin = ''json'', epicId = None, prdPath = Some ''prd.json'',
       maxIterations = 10, tasks = [example_task], cwd = ''/work'' \<rparr>"

definition version2_text :: string where
  "version2_text = JSON_stringify (JObj [(''version'', JNum 2)])"

definition example_session :: PersistedSessionState where
  "example_session = createPersistedSession ''2024-01-01T00:00:00.000Z'' example_options"

definition example_result :: IterationResult where
  "example_result =
     \<lparr> IterationResult.iteration = 1, status = ''completed'', task = example_task, taskCompleted = True,
       durationMs = 1500, error = None,
       startedAt = ''2024-01-01T00:00:01.000Z'', endedAt = ''2024-01-01T00:00:02.500Z'' \<rparr>"

definition example_result2 :: IterationResult where
  "example_result2 =
     example_result\<lparr> IterationResult.iteration := 2,
       task := example_task\<lparr> TrackerTask.id := ''b'', TrackerTask.title := ''Task b'' \<rparr> \<rparr>"

definition example_history :: "session_op list" where
  "example_history =
     [Update example_result, Pause ''2024-01-01T00:03:00.000Z'', Resume, AddSkipped ''b'']"

text \<open>
  A stream of two objects with text around them, and a \<open>JSON.parse\<close> that knows the texts
  of these two objects.
\<close>

definition example_object1 :: json where
  "example_object1 = JObj [(''type'', JStr ''message''), (''content'', JStr ''Line {1}'')]"

definition example_object2 :: json where
  "example_object2 =
     JObj [(''type'', JStr ''tool_call''),
           (''input'', JObj [(''path'', JStr [CHR ''/'', CHR 0x22, CHR 0x5C, CHR ''}'']), (''n'', JNum (-12))]),
           (''tags'', JArr [JNull, JBool True, JObj []])]"

definition example_parse :: "string \<Rightarrow> json option" where
  "example_parse text =
     (if text = JSON_stringify example_object1 then Some example_object1
      else if text = JSON_stringify example_object2 then Some example_object2
      else None)"

definition example_stream :: "(string \<times> json) list" where
  "example_stream = [(''YOLO mode enabled} '', example_object1), ([CHR 0x0A, CHR 0x22], example_object2)]"


section \<open>Properties of the mutators\<close>

text \<open>
  C6. \<open>isSessionResumable\<close> answers true exactly for the statuses running, paused and
  interrupted; in particular it answers false for completed and failed.
\<close>

theorem isSessionResumable_iff:
  "(isSessionResumable s \<longleftrightarrow> status s \<in> {''running'', ''paused'', ''interrupted''})
   \<and> \<not> isSessionResumable (s\<lparr> status := ''completed'' \<rparr>)
   \<and> \<not> isSessionResumable (s\<lparr> status := ''failed'' \<rparr>)"
  by (auto simp: isSessionResumable_def)


text \<open>
  C9. For a running session that is not paused and has no \<open>pausedAt\<close>, resuming after
  pausing gives the session back. For every session, \<open>pauseSession\<close> sets \<open>status\<close> to
  paused, \<open>isPaused\<close> to true and \<open>pausedAt\<close> to the clock reading, and leaves every other
  field as it was.
\<close>

theorem pause_resume_roundtrip:
  "(status s = ''running'' \<and> \<not> isPaused s \<and> pausedAt s = None
      \<longrightarrow> resumePersistedSession (pauseSession now s) = s)
   \<and> status (pauseSession now s) = ''paused''
   \<and> isPaused (pauseSession now s)
   \<and> pausedAt (pauseSession now s) = Some now
   \<and> version (pauseSession now s) = version s
   \<and> sessionId (pauseSession now s) = sessionId s
   \<and> startedAt (pauseSession now s) = startedAt s
   \<and> updatedAt (pauseSession now s) = updatedAt s
   \<and> currentIteration (pauseSession now s) = currentIteration s
   \<and> maxIterations (pauseSession now s) = maxIterations s
   \<and> tasksCompleted (pauseSession now s) = tasksCompleted s
   \<and> agentPlugin (pauseSession now s) = agentPlugin s
   \<and> model (pauseSession now s) = model s
   \<and> trackerState (pauseSession now s) = trackerState s
   \<and> iterations (pauseSession now s) = iterations s
   \<and> skippedTaskIds (pauseSession now s) = skippedTaskIds s
   \<and> cwd (pauseSession now s) = cwd s"
proof -
  have roundtrip: "resumePersistedSession (pauseSession now s) = s"
    if "status s = ''running''" and "\<not> isPaused s" and "pausedAt s = None"
    using that by (simp add: resumePersistedSession_def pauseSession_def)
  have frame: "pauseSession now s = s\<lparr> status := ''paused'', isPaused := True, pausedAt := Some now \<rparr>"
    by (simp add: pauseSession_def)
  show ?thesis
    using roundtrip unfolding frame by simp
qed

theorem pause_resume_roundtrip_witness:
  "status example_session = ''running'' \<and> \<not> isPaused example_session
   \<and> pausedAt example_session = None
   \<and> resumePersistedSession (pauseSession ''2024-01-01T00:05:00.000Z'' example_session)
       = example_session
   \<and> status (pauseSession ''2024-01-01T00:05:00.000Z'' example_session) = ''paused''
   \<and> pausedAt (pauseSession ''2024-01-01T00:05:00.000Z'' example_session)
       = Some ''2024-01-01T00:05:00.000Z''"
proof -
  have h1: "status example_session = ''running''"
    by (simp add: example_session_def createPersistedSession_def)
  have h2: "\<not> isPaused example_session"
    by (simp add: example_session_def createPersistedSession_def)
  have h3: "pausedAt example_session = None"
    by (simp add: example_session_def createPersistedSession_def)
  show ?thesis
    using h1 h2 h3 pause_resume_roundtrip [of example_session "''2024-01-01T00:05:00.000Z''"]
    by simp
qed

text \<open>
  C4. \<open>updateSessionAfterIteration\<close> appends one record, built from the result, after the
  records already stored; sets \<open>currentIteration\<close> to the result's iteration number; adds
  one to \<open>tasksCompleted\<close> exactly when the result reports the task completed; and in the
  tracker snapshot, which keeps its length and order, an entry is rewritten (status
  completed, \<open>completedInSession\<close> true) exactly when it has the result's task id and the
  result reports the task completed, every other entry staying as it was.
\<close>

theorem updateSessionAfterIteration_effect:
  "iterations (updateSessionAfterIteration s r) = iterations s @ [iterationRecord r]
   \<and> PersistedIterationResult.iteration (iterationRecord r) = IterationResult.iteration r
   \<and> taskId (iterationRecord r) = TrackerTask.id (task r)
   \<and> taskTitle (iterationRecord r) = TrackerTask.title (task r)
   \<and> PersistedIterationResult.status (iterationRecord r) = IterationResult.status r
   \<and> PersistedIterationResult.taskCompleted (iterationRecord r) = IterationResult.taskCompleted r
   \<and> PersistedIterationResult.durationMs (iterationRecord r) = IterationResult.durationMs r
   \<and> PersistedIterationResult.error (iterationRecord r) = IterationResult.error r
   \<and> PersistedIterationResult.startedAt (iterationRecord r) = IterationResult.startedAt r
   \<and> PersistedIterationResult.endedAt (iterationRecord r) = IterationResult.endedAt r
   \<and> currentIteration (updateSessionAfterIteration s r) = IterationResult.iteration r
   \<and> tasksCompleted (updateSessionAfterIteration s r)
       = tasksCompleted s + (if IterationResult.taskCompleted r then 1 else 0)
   \<and> length (TrackerStateSnapshot.tasks (trackerState (updateSessionAfterIteration s r)))
       = length (TrackerStateSnapshot.tasks (trackerState s))
   \<and> (\<forall>i < length (TrackerStateSnapshot.tasks (trackerState s)).
         TrackerStateSnapshot.tasks (trackerState (updateSessionAfterIteration s r)) ! i
           = (if IterationResult.taskCompleted r
                 \<and> TaskStatusSnapshot.id (TrackerStateSnapshot.tasks (trackerState s) ! i)
                     = TrackerTask.id (task r)
              then (TrackerStateSnapshot.tasks (trackerState s) ! i)
                     \<lparr> TaskStatusSnapshot.status := ''completed'', completedInSession := True \<rparr>
              else TrackerStateSnapshot.tasks (trackerState s) ! i))"
  by (auto simp: updateSessionAfterIteration_def updatedTasks_def iterationRecord_def)

theorem updateSessionAfterIteration_effect_witness:
  "iterations (updateSessionAfterIteration example_session example_result)
     = [iterationRecord example_result]
   \<and> currentIteration (updateSessionAfterIteration example_session example_result) = 1
   \<and> tasksCompleted (updateSessionAfterIteration example_session example_result) = 1
   \<and> (0::nat) < length (TrackerStateSnapshot.tasks (trackerState example_session))
   \<and> TaskStatusSnapshot.status
        (TrackerStateSnapshot.tasks
           (trackerState (updateSessionAfterIteration example_session example_result)) ! 0)
       = ''completed''
   \<and> completedInSession
        (TrackerStateSnapshot.tasks
           (trackerState (updateSessionAfterIteration example_session example_result)) ! 0)"
proof -
  have len: "(0::nat) < length (TrackerStateSnapshot.tasks (trackerState example_session))"
    by (simp add: example_session_def createPersistedSession_def example_options_def)
  have its: "iterations example_session = []" and tc: "tasksCompleted example_session = 0"
    by (simp_all add: example_session_def createPersistedSession_def)
  have t0: "TaskStatusSnapshot.id (TrackerStateSnapshot.tasks (trackerState example_session) ! 0)
      = TrackerTask.id (task example_result)"
    by (simp add: example_session_def createPersistedSession_def example_options_def
        example_result_def example_task_def)
  have compl: "IterationResult.taskCompleted example_result"
    and it: "IterationResult.iteration example_result = 1"
    by (simp_all add: example_result_def)
  note eff = updateSessionAfterIteration_effect [of example_session example_result]
  from eff len have at0:
    "TrackerStateSnapshot.tasks
       (trackerState (updateSessionAfterIteration example_session example_result)) ! 0
     = (TrackerStateSnapshot.tasks (trackerState example_session) ! 0)
         \<lparr> TaskStatusSnapshot.status := ''completed'', completedInSession := True \<rparr>"
    using t0 compl by simp
  show ?thesis
    using eff len its tc it compl at0 by simp
qed

text \<open>
  C7, as the code has it. \<open>addSkippedTask\<close> adds the id only when it is not there yet: the
  resulting list contains the id, and contains it exactly once whenever the given list
  held it at most once; the other ids are as before, in the same order; and adding the same
  id a second time changes nothing.
\<close>

theorem addSkippedTask_dedup:
  "(count_list (skippedTaskIds s) t \<le> 1
      \<longrightarrow> count_list (skippedTaskIds (addSkippedTask s t)) t = 1)
   \<and> t \<in> set (skippedTaskIds (addSkippedTask s t))
   \<and> filter (\<lambda>x. x \<noteq> t) (skippedTaskIds (addSkippedTask s t))
       = filter (\<lambda>x. x \<noteq> t) (skippedTaskIds s)
   \<and> addSkippedTask (addSkippedTask s t) t = addSkippedTask s t"
proof -
  have absent: "t \<notin> set xs \<Longrightarrow> count_list xs t = 0" for xs :: "string list"
    by (simp add: count_list_0_iff)
  have present: "t \<in> set xs \<Longrightarrow> 0 < count_list xs t" for xs :: "string list"
    using count_list_0_iff [of xs t] by (cases "count_list xs t") auto
  show ?thesis
    using absent [of "skippedTaskIds s"] present [of "skippedTaskIds s"]
    by (auto simp: addSkippedTask_def)
qed

theorem addSkippedTask_dedup_witness:
  "count_list (skippedTaskIds example_session) ''a'' \<le> 1
   \<and> count_list (skippedTaskIds (addSkippedTask example_session ''a'')) ''a'' = 1
   \<and> skippedTaskIds (addSkippedTask example_session ''a'') = [''a'']"
proof -
  have h: "count_list (skippedTaskIds example_session) ''a'' \<le> 1"
    by (simp add: example_session_def createPersistedSession_def)
  have v: "skippedTaskIds (addSkippedTask example_session ''a'') = [''a'']"
    by (simp add: addSkippedTask_def example_session_def createPersistedSession_def)
  show ?thesis
    using h v addSkippedTask_dedup [of example_session "''a''"] by simp
qed

text \<open>
  A skipped-id list that already holds an id twice (a session file may hold any list of
  strings) is returned as it is, so the id stays there twice.
\<close>

theorem addSkippedTask_once_counterexample:
  "count_list
     (skippedTaskIds (addSkippedTask (example_session\<lparr> skippedTaskIds := [''a'', ''a''] \<rparr>) ''a''))
     ''a'' \<noteq> 1"
  by (simp add: addSkippedTask_def)


section \<open>The parser reads back what the serialiser writes\<close>

lemma skip_whitespace_blank: "blank w \<Longrightarrow> skip_whitespace (w @ cs) = skip_whitespace cs"
  by (induction w) (simp_all add: blank_def skip_whitespace_def)

lemma skip_whitespace_stop: "\<not> is_whitespace c \<Longrightarrow> skip_whitespace (c # cs) = c # cs"
  by (simp add: skip_whitespace_def)

lemma hex_value_hex_digit: "d < 16 \<Longrightarrow> hex_value (hex_digit d) = Some d"
proof -
  assume d: "d < 16"
  have v: "(of_char (hex_digit d) :: nat) = (if d < 10 then 48 + d else 87 + d)"
    using d by (simp add: hex_digit_def)
  show ?thesis
    unfolding hex_value_def v Let_def using d by auto
qed

lemma unicode_escape_quote:
  assumes "(of_char c :: nat) < 32"
  shows "unicode_escape [CHR ''0'', CHR ''0'', hex_digit (of_char c div 16), hex_digit (of_char c mod 16)]
    = Some c"
proof -
  have z: "hex_value CHR ''0'' = Some 0"
    by (simp add: hex_value_def)
  have a: "hex_value (hex_digit (of_char c div 16)) = Some (of_char c div 16)"
    using assms by (intro hex_value_hex_digit) simp
  have b: "hex_value (hex_digit (of_char c mod 16)) = Some (of_char c mod 16)"
    by (intro hex_value_hex_digit) simp
  have "char_of (16 * ((of_char c :: nat) div 16) + of_char c mod 16) = c"
    by simp
  then show ?thesis
    by (simp add: unicode_escape_def z a b)
qed

lemma parse_chars_quote_char:
  "parse_chars (quote_char c @ cs) = map_option (apfst ((#) c)) (parse_chars cs)"
proof -
  consider "c = CHR 0x22" | "c = CHR 0x5C" | "c = CHR 0x08" | "c = CHR 0x0C" | "c = CHR 0x0A"
    | "c = CHR 0x0D" | "c = CHR 0x09"
    | "c \<notin> {CHR 0x22, CHR 0x5C, CHR 0x08, CHR 0x0C, CHR 0x0A, CHR 0x0D, CHR 0x09}" "(of_char c :: nat) < 32"
    | "c \<notin> {CHR 0x22, CHR 0x5C, CHR 0x08, CHR 0x0C, CHR 0x0A, CHR 0x0D, CHR 0x09}" "\<not> (of_char c :: nat) < 32"
    by blast
  then show ?thesis
  proof cases
    case 8
    then show ?thesis
      using unicode_escape_quote [of c] by (simp add: quote_char_def)
  next
    case 9
    then show ?thesis
      by (simp add: quote_char_def)
  qed (simp_all add: quote_char_def unescape_def)
qed

lemma parse_chars_quoted:
  "parse_chars (concat (map quote_char s) @ CHR 0x22 # rest) = Some (s, rest)"
  by (induction s) (simp_all add: parse_chars_quote_char)

lemma digit_char:
  assumes "(k::nat) < 10"
  shows "is_digit (char_of (48 + k))" and "digit_value (char_of (48 + k)) = k"
    and "(char_of (48 + k) = CHR ''0'') = (k = 0)"
proof -
  have v: "(of_char (char_of (48 + k)) :: nat) = 48 + k"
    using assms by simp
  show "is_digit (char_of (48 + k))"
    unfolding is_digit_def v using assms by simp
  show "digit_value (char_of (48 + k)) = k"
    unfolding digit_value_def v by simp
  have "(of_char (char_of (48 + k)) :: nat) = of_char CHR ''0'' \<longleftrightarrow> k = 0"
    unfolding v by simp
  then show "(char_of (48 + k) = CHR ''0'') = (k = 0)"
    by (metis of_char_eq_iff)
qed

lemma digits_nonempty: "digits n \<noteq> []"
  by (subst digits.simps) simp

lemma digits_all_digit: "\<forall>c \<in> set (digits n). is_digit c"
proof (induction n rule: digits.induct)
  case (1 n)
  show ?case
  proof (cases "n < 10")
    case True
    then show ?thesis
      using digit_char(1) [of n] by (subst digits.simps) simp
  next
    case False
    then show ?thesis
      using 1 digit_char(1) [of "n mod 10"] by (subst digits.simps) simp
  qed
qed

lemma digits_value_snoc: "digits_value (ds @ [d]) = 10 * digits_value ds + digit_value d"
  by (simp add: digits_value_def)

lemma digits_value_digits: "digits_value (digits n) = n"
proof (induction n rule: digits.induct)
  case (1 n)
  show ?case
  proof (cases "n < 10")
    case True
    then show ?thesis
      using digit_char(2) [of n] by (subst digits.simps) (simp add: digits_value_def)
  next
    case False
    then show ?thesis
      using 1 digit_char(2) [of "n mod 10"]
      by (subst digits.simps) (simp add: digits_value_snoc)
  qed
qed

lemma digits_leading_zero: "hd (digits n) = CHR ''0'' \<Longrightarrow> length (digits n) = 1"
proof (induction n rule: digits.induct)
  case (1 n)
  show ?case
  proof (cases "n < 10")
    case True
    then show ?thesis
      by (subst digits.simps) simp
  next
    case False
    have "hd (digits (n div 10)) = CHR ''0''"
      using "1.prems" False digits_nonempty [of "n div 10"]
      by (subst (asm) digits.simps) simp
    then have "length (digits (n div 10)) = 1"
      using 1 False by simp
    then have "digits (n div 10) = [hd (digits (n div 10))]"
      by (cases "digits (n div 10)") simp_all
    then have one: "digits (n div 10) = [CHR ''0'']"
      using \<open>hd (digits (n div 10)) = CHR ''0''\<close> by simp
    have "digits_value (digits (n div 10)) = n div 10"
      by (rule digits_value_digits)
    then have "n div 10 = 0"
      unfolding one by (simp add: digits_value_def digit_value_def)
    then show ?thesis
      using False by simp
  qed
qed

lemma parse_digits_digits:
  assumes "ends_number rest"
  shows "parse_digits (digits n @ rest) = Some (n, rest)"
proof -
  have tw: "takeWhile is_digit (digits n @ rest) = digits n"
    using digits_all_digit [of n] assms
    by (cases rest) (simp_all add: ends_number_def takeWhile_append2 takeWhile_eq_all_conv)
  have dw: "dropWhile is_digit (digits n @ rest) = rest"
    using digits_all_digit [of n] assms
    by (cases rest) (simp_all add: ends_number_def dropWhile_append2)
  show ?thesis
    using digits_nonempty [of n] digits_leading_zero [of n] digits_value_digits [of n]
    by (auto simp: parse_digits_def tw dw Let_def)
qed

lemma parse_number_NumberToString:
  assumes "ends_number rest"
  shows "parse_number (NumberToString i @ rest) = Some (JNum i, rest)"
proof (cases "i < 0")
  case True
  then show ?thesis
    using parse_digits_digits [OF assms, of "nat (- i)"]
    by (simp add: parse_number_def NumberToString_def)
next
  case False
  obtain c ds where ds: "digits (nat i) = c # ds"
    using digits_nonempty [of "nat i"] by (cases "digits (nat i)") auto
  have "is_digit c"
    using digits_all_digit [of "nat i"] ds by simp
  then have "c \<noteq> CHR ''-''"
    by (auto simp: is_digit_def)
  then show ?thesis
    using False parse_digits_digits [OF assms, of "nat i"] ds
    by (simp add: parse_number_def NumberToString_def)
qed

lemma SerializeJSON_array:
  "SerializeJSON gap indent (JArr vs) =
     (if vs = [] then ''[]''
      else CHR ''['' # line_break gap (indent @ gap)
        @ intercalate (CHR '','' # line_break gap (indent @ gap))
            (map (SerializeJSON gap (indent @ gap)) vs)
        @ line_break gap indent @ '']'')"
  by (simp add: Let_def line_break_def)

lemma member_text_fun:
  "member_text gap indent =
     (\<lambda>(k, v). QuoteJSONString k @ CHR '':'' # (if gap = [] then [] else '' '')
        @ SerializeJSON gap indent v)"
  by (auto simp: fun_eq_iff member_text_def)

lemma SerializeJSON_object:
  "SerializeJSON gap indent (JObj kvs) =
     (if kvs = [] then ''{}''
      else CHR ''{'' # line_break gap (indent @ gap)
        @ intercalate (CHR '','' # line_break gap (indent @ gap))
            (map (member_text gap (indent @ gap)) kvs)
        @ line_break gap indent @ ''}'')"
  by (cases "gap = []") (simp_all add: Let_def line_break_def member_text_fun)

lemma blank_line_break: "blank gap \<Longrightarrow> blank indent \<Longrightarrow> blank (line_break gap indent)"
  by (simp add: blank_def line_break_def is_whitespace_def)

lemma blank_append: "blank (xs @ ys) \<longleftrightarrow> blank xs \<and> blank ys"
  by (auto simp: blank_def)

lemma intercalate_Cons: "xs \<noteq> [] \<Longrightarrow> intercalate sep (x # xs) = x @ sep @ intercalate sep xs"
  by (cases xs) simp_all

lemma is_digit_not: "is_digit c \<Longrightarrow> \<not> is_whitespace c \<and> c \<noteq> CHR 0x22 \<and> c \<noteq> CHR ''['' \<and> c \<noteq> CHR '']'' \<and> c \<noteq> CHR ''{'' \<and> c \<noteq> CHR ''}'' \<and> c \<noteq> CHR ''n'' \<and> c \<noteq> CHR ''t'' \<and> c \<noteq> CHR ''f'' \<and> c \<noteq> CHR '',''"
  by (auto simp: is_digit_def is_whitespace_def)

lemma ends_number_blank:
  "blank w \<Longrightarrow> \<not> is_digit c \<Longrightarrow> ends_number (w @ c # rest)"
  using is_digit_not by (cases w) (auto simp: ends_number_def blank_def)

lemma NumberToString_start:
  obtains c r where "NumberToString i = c # r" and "is_digit c \<or> c = CHR ''-''"
proof -
  obtain c ds where ds: "digits (nat i) = c # ds"
    using digits_nonempty [of "nat i"] by (cases "digits (nat i)") auto
  have "is_digit c"
    using digits_all_digit [of "nat i"] ds by simp
  then show ?thesis
    using that ds by (cases "i < 0") (simp_all add: NumberToString_def)
qed

lemma parse_value_blank: "blank w \<Longrightarrow> parse_value fuel (w @ cs) = parse_value fuel cs"
  by (cases fuel) (simp_all add: skip_whitespace_blank)

lemma skip_whitespace_start:
  "\<not> is_whitespace c \<Longrightarrow> (case skip_whitespace (c # r) of [] \<Rightarrow> a | x # xs \<Rightarrow> b x xs) = b c r"
  by (simp add: skip_whitespace_stop)

lemma reads_back_JNull: "reads_back gap indent JNull"
proof -
  have "parse_value fuel (w @ ''null'' @ rest) = Some (JNull, rest)"
    if w: "blank w" and fuel: "4 \<le> fuel" for fuel w rest
  proof -
    obtain f where f: "fuel = Suc f"
      using fuel by (cases fuel) simp_all
    have "parse_value (Suc f) (CHR ''n'' # ''ull'' @ rest) = Some (JNull, rest)"
      unfolding parse_value.simps
      by (subst skip_whitespace_start) (simp_all add: is_whitespace_def)
    then show ?thesis
      using w by (simp add: f parse_value_blank del: parse_value.simps)
  qed
  then show ?thesis
    by (simp add: reads_back_def)
qed

lemma reads_back_JBool: "reads_back gap indent (JBool b)"
proof -
  have "parse_value fuel (w @ SerializeJSON gap indent (JBool b) @ rest) = Some (JBool b, rest)"
    if w: "blank w" and fuel: "4 \<le> fuel" for fuel w rest
  proof -
    obtain f where f: "fuel = Suc f"
      using fuel by (cases fuel) simp_all
    have "parse_value (Suc f) (CHR ''t'' # ''rue'' @ rest) = Some (JBool True, rest)"
      unfolding parse_value.simps
      by (subst skip_whitespace_start) (simp_all add: is_whitespace_def)
    moreover have "parse_value (Suc f) (CHR ''f'' # ''alse'' @ rest) = Some (JBool False, rest)"
      unfolding parse_value.simps
      by (subst skip_whitespace_start) (simp_all add: is_whitespace_def)
    ultimately show ?thesis
      using w by (cases b) (simp_all add: f parse_value_blank del: parse_value.simps)
  qed
  then show ?thesis
    by (cases b) (simp_all add: reads_back_def)
qed

lemma number_start_not:
  assumes "is_digit c \<or> c = CHR ''-''"
  shows "\<not> is_whitespace c \<and> c \<noteq> CHR 0x22 \<and> c \<noteq> CHR ''['' \<and> c \<noteq> CHR '']''
    \<and> c \<noteq> CHR ''{'' \<and> c \<noteq> CHR ''}'' \<and> c \<noteq> CHR ''n'' \<and> c \<noteq> CHR ''t''
    \<and> c \<noteq> CHR ''f'' \<and> c \<noteq> CHR '',''"
proof (cases "is_digit c")
  case True
  then show ?thesis
    using is_digit_not [of c] by simp
next
  case False
  then have "c = CHR ''-''"
    using assms by simp
  then show ?thesis
    by (simp add: is_whitespace_def)
qed

lemma reads_back_JNum: "reads_back gap indent (JNum i)"
proof -
  have "parse_value fuel (w @ NumberToString i @ rest) = Some (JNum i, rest)"
    if w: "blank w" and rest: "ends_number rest" and fuel: "length (NumberToString i) \<le> fuel"
    for fuel w rest
  proof -
    obtain c r where cr: "NumberToString i = c # r" and c: "is_digit c \<or> c = CHR ''-''"
      by (rule NumberToString_start)
    obtain f where f: "fuel = Suc f"
      using fuel cr by (cases fuel) simp_all
    note c' = number_start_not [OF c]
    have "parse_value (Suc f) (c # r @ rest) = parse_number (c # r @ rest)"
      unfolding parse_value.simps
      by (subst skip_whitespace_start) (simp_all add: c')
    moreover have "parse_value fuel (w @ NumberToString i @ rest) = parse_value (Suc f) (c # r @ rest)"
      using w by (simp add: f cr parse_value_blank del: parse_value.simps)
    moreover have "parse_number (c # r @ rest) = Some (JNum i, rest)"
      using parse_number_NumberToString [OF rest, of i] by (simp add: cr)
    ultimately show ?thesis
      by simp
  qed
  then show ?thesis
    by (simp add: reads_back_def)
qed

lemma reads_back_JStr: "reads_back gap indent (JStr s)"
proof -
  have "parse_value fuel (w @ QuoteJSONString s @ rest) = Some (JStr s, rest)"
    if w: "blank w" and fuel: "length (QuoteJSONString s) \<le> fuel" for fuel w rest
  proof -
    obtain f where f: "fuel = Suc f"
      using fuel by (cases fuel) (simp_all add: QuoteJSONString_def)
    have "parse_value (Suc f) (CHR 0x22 # concat (map quote_char s) @ CHR 0x22 # rest)
        = Some (JStr s, rest)"
      unfolding parse_value.simps
      by (subst skip_whitespace_start) (simp_all add: is_whitespace_def parse_chars_quoted)
    then show ?thesis
      using w by (simp add: f QuoteJSONString_def parse_value_blank del: parse_value.simps)
  qed
  then show ?thesis
    by (simp add: reads_back_def)
qed

lemma SerializeJSON_start:
  "\<exists>c r. SerializeJSON gap indent v = c # r
     \<and> \<not> is_whitespace c \<and> c \<noteq> CHR '']'' \<and> c \<noteq> CHR ''}'' \<and> c \<noteq> CHR '',''"
proof (cases v)
  case JNull
  then show ?thesis by (simp add: is_whitespace_def)
next
  case (JBool b)
  then show ?thesis by (cases b) (simp_all add: is_whitespace_def)
next
  case (JNum i)
  obtain c r where cr: "NumberToString i = c # r" and c: "is_digit c \<or> c = CHR ''-''"
    by (rule NumberToString_start)
  show ?thesis
    using cr JNum number_start_not [OF c] by simp
next
  case (JStr s)
  then show ?thesis by (simp add: is_whitespace_def QuoteJSONString_def)
next
  case (JArr vs)
  then show ?thesis
    by (cases "vs = []") (simp_all add: SerializeJSON_array is_whitespace_def del: SerializeJSON.simps)
next
  case (JObj kvs)
  then show ?thesis
    by (cases "kvs = []") (simp_all add: SerializeJSON_object is_whitespace_def del: SerializeJSON.simps)
qed

lemma parse_elements_intercalate:
  assumes "vs \<noteq> []" and "blank sep" and "blank close"
  shows "\<forall>v \<in> set vs. reads_back gap indent v \<Longrightarrow> blank w
    \<Longrightarrow> length (intercalate (CHR '','' # sep) (map (SerializeJSON gap indent) vs)) < fuel
    \<Longrightarrow> parse_elements fuel
          (w @ intercalate (CHR '','' # sep) (map (SerializeJSON gap indent) vs)
             @ close @ CHR '']'' # rest)
        = Some (vs, rest)"
  using assms(1)
proof (induction vs arbitrary: fuel w rule: list_nonempty_induct)
  case (single v)
  obtain f where f: "fuel = Suc f"
    using single.prems(3) by (cases fuel) simp_all
  have "parse_value f (w @ SerializeJSON gap indent v @ close @ CHR '']'' # rest)
      = Some (v, close @ CHR '']'' # rest)"
    using single.prems f assms(3) ends_number_blank [of close "CHR '']''" rest]
    by (simp add: reads_back_def is_digit_def)
  moreover have "skip_whitespace (close @ CHR '']'' # rest) = CHR '']'' # rest"
    using assms(3) by (simp add: skip_whitespace_blank skip_whitespace_stop is_whitespace_def)
  ultimately show ?case
    by (simp add: f)
next
  case (cons v vs)
  let ?more = "intercalate (CHR '','' # sep) (map (SerializeJSON gap indent) vs)"
  have shape: "intercalate (CHR '','' # sep) (SerializeJSON gap indent v # map (SerializeJSON gap indent) vs)
      = SerializeJSON gap indent v @ CHR '','' # sep @ ?more"
    using cons.hyps by (simp add: intercalate_Cons)
  obtain f where f: "fuel = Suc f"
    using cons.prems(3) by (cases fuel) simp_all
  have len: "length (SerializeJSON gap indent v) \<le> f" "length ?more < f"
    using cons.prems(3) by (simp_all add: shape f)
  have "parse_value f (w @ SerializeJSON gap indent v @ (CHR '','' # sep @ ?more @ close @ CHR '']'' # rest))
      = Some (v, CHR '','' # sep @ ?more @ close @ CHR '']'' # rest)"
    using cons.prems(1,2) len(1)
    by (simp add: reads_back_def ends_number_def is_digit_def)
  moreover have "parse_elements f (sep @ ?more @ close @ CHR '']'' # rest) = Some (vs, rest)"
    using cons.prems(1) assms(2) len(2) by (intro cons.IH) simp_all
  ultimately show ?case
    by (simp add: f shape skip_whitespace_stop is_whitespace_def)
qed

lemma parse_members_member:
  assumes w: "blank w"
    and val: "parse_value f ((if gap = [] then [] else '' '') @ SerializeJSON gap indent v @ after)
        = Some (v, after)"
  shows "parse_members (Suc f) (w @ member_text gap indent (k, v) @ after)
    = (case skip_whitespace after of
         [] \<Rightarrow> None
       | c # r \<Rightarrow>
           if c = CHR '','' then map_option (apfst ((#) (k, v))) (parse_members f r)
           else if c = CHR ''}'' then Some ([(k, v)], r)
           else None)"
proof -
  have key: "parse_chars (concat (map quote_char k) @ CHR 0x22 # CHR '':''
        # (if gap = [] then [] else '' '') @ SerializeJSON gap indent v @ after)
      = Some (k, CHR '':'' # (if gap = [] then [] else '' '') @ SerializeJSON gap indent v @ after)"
    by (rule parse_chars_quoted)
  have "parse_members (Suc f)
      (w @ CHR 0x22 # concat (map quote_char k) @ CHR 0x22 # CHR '':''
         # (if gap = [] then [] else '' '') @ SerializeJSON gap indent v @ after)
      = (case skip_whitespace after of
         [] \<Rightarrow> None
       | c # r \<Rightarrow>
           if c = CHR '','' then map_option (apfst ((#) (k, v))) (parse_members f r)
           else if c = CHR ''}'' then Some ([(k, v)], r)
           else None)"
    using w key val
    by (simp add: skip_whitespace_blank skip_whitespace_stop is_whitespace_def
        del: parse_value.simps)
  then show ?thesis
    by (simp add: member_text_def QuoteJSONString_def del: parse_members.simps)
qed

lemma length_member_text:
  "length (SerializeJSON gap indent v) < length (member_text gap indent (k, v))"
  by (simp add: member_text_def QuoteJSONString_def)

lemma parse_members_intercalate:
  assumes "kvs \<noteq> []" and "blank sep" and "blank close" and "blank gap"
  shows "\<forall>kv \<in> set kvs. reads_back gap indent (snd kv) \<Longrightarrow> blank w
    \<Longrightarrow> length (intercalate (CHR '','' # sep) (map (member_text gap indent) kvs)) < fuel
    \<Longrightarrow> parse_members fuel
          (w @ intercalate (CHR '','' # sep) (map (member_text gap indent) kvs)
             @ close @ CHR ''}'' # rest)
        = Some (kvs, rest)"
  using assms(1)
proof (induction kvs arbitrary: fuel w rule: list_nonempty_induct)
  case (single kv)
  obtain k v where kv: "kv = (k, v)"
    by (cases kv)
  have colon: "blank (if gap = [] then [] else '' '')"
    by (simp add: blank_def is_whitespace_def)
  obtain f where f: "fuel = Suc f"
    using single.prems(3) by (cases fuel) simp_all
  have len: "length (SerializeJSON gap indent v) \<le> f"
    using single.prems(3) length_member_text [of gap indent v k] by (simp add: f kv)
  have val: "parse_value f ((if gap = [] then [] else '' '') @ SerializeJSON gap indent v
        @ close @ CHR ''}'' # rest) = Some (v, close @ CHR ''}'' # rest)"
    using single.prems(1) colon len assms(3) ends_number_blank [of close "CHR ''}''" rest]
    by (simp add: reads_back_def kv is_digit_def del: parse_value.simps)
  have close: "skip_whitespace (close @ CHR ''}'' # rest) = CHR ''}'' # rest"
    using assms(3) by (simp add: skip_whitespace_blank skip_whitespace_stop is_whitespace_def)
  show ?case
    using parse_members_member [OF single.prems(2) val, of k] close
    by (simp add: f kv del: parse_members.simps)
next
  case (cons kv kvs)
  obtain k v where kv: "kv = (k, v)"
    by (cases kv)
  let ?more = "intercalate (CHR '','' # sep) (map (member_text gap indent) kvs)"
  have colon: "blank (if gap = [] then [] else '' '')"
    by (simp add: blank_def is_whitespace_def)
  have shape: "intercalate (CHR '','' # sep) (member_text gap indent (k, v) # map (member_text gap indent) kvs)
      = member_text gap indent (k, v) @ CHR '','' # sep @ ?more"
    using cons.hyps by (simp add: intercalate_Cons)
  obtain f where f: "fuel = Suc f"
    using cons.prems(3) by (cases fuel) simp_all
  have "length (member_text gap indent (k, v)) + length ?more < f"
    using cons.prems(3) by (simp add: shape f kv)
  then have len: "length (SerializeJSON gap indent v) \<le> f" "length ?more < f"
    using length_member_text [of gap indent v k] by simp_all
  have val: "parse_value f ((if gap = [] then [] else '' '') @ SerializeJSON gap indent v
        @ CHR '','' # sep @ ?more @ close @ CHR ''}'' # rest)
      = Some (v, CHR '','' # sep @ ?more @ close @ CHR ''}'' # rest)"
    using cons.prems(1) colon len(1)
    by (simp add: reads_back_def kv ends_number_def is_digit_def del: parse_value.simps)
  have more: "parse_members f (sep @ ?more @ close @ CHR ''}'' # rest) = Some (kvs, rest)"
    using cons.prems(1) assms(2) len(2) by (intro cons.IH) simp_all
  show ?case
    using parse_members_member [OF cons.prems(2) val, of k] more
    by (simp add: f kv shape skip_whitespace_stop is_whitespace_def del: parse_members.simps)
qed

lemma set_property_new: "k \<notin> fst ` set props \<Longrightarrow> set_property k v props = props @ [(k, v)]"
  by (induction props) auto

lemma foldl_set_property:
  "distinct (map fst (props @ kvs))
    \<Longrightarrow> foldl (\<lambda>props (k, v). set_property k v props) props kvs = props @ kvs"
proof (induction kvs arbitrary: props)
  case Nil
  show ?case by simp
next
  case (Cons kv kvs)
  obtain k v where kv: "kv = (k, v)"
    by (cases kv)
  have "set_property k v props = props @ [(k, v)]"
    using Cons.prems by (intro set_property_new) (auto simp: kv)
  moreover have "distinct (map fst ((props @ [(k, v)]) @ kvs))"
    using Cons.prems by (simp add: kv)
  ultimately show ?case
    using Cons.IH [of "props @ [(k, v)]"] by (simp add: kv)
qed

lemma object_of_distinct: "distinct (map fst kvs) \<Longrightarrow> object_of kvs = JObj kvs"
  using foldl_set_property [of "[]" kvs] by (simp add: object_of_def)

lemma reads_back_SerializeJSON:
  "blank gap \<Longrightarrow> distinct_keys v \<Longrightarrow> blank indent \<Longrightarrow> reads_back gap indent v"
proof (induction v arbitrary: indent)
  case JNull
  show ?case by (rule reads_back_JNull)
next
  case (JBool b)
  show ?case by (rule reads_back_JBool)
next
  case (JNum i)
  show ?case by (rule reads_back_JNum)
next
  case (JStr s)
  show ?case by (rule reads_back_JStr)
next
  case (JArr vs)
  let ?inner = "indent @ gap"
  let ?sep = "line_break gap ?inner"
  let ?close = "line_break gap indent"
  let ?body = "intercalate (CHR '','' # ?sep) (map (SerializeJSON gap ?inner) vs)"
  have inner: "blank ?inner" and sep: "blank ?sep" and close: "blank ?close"
    using JArr.prems by (simp_all add: blank_append blank_line_break)
  have each: "\<forall>v \<in> set vs. reads_back gap ?inner v"
    using JArr.IH JArr.prems inner by simp
  have "parse_value fuel (w @ SerializeJSON gap indent (JArr vs) @ rest) = Some (JArr vs, rest)"
    if w: "blank w" and fuel: "length (SerializeJSON gap indent (JArr vs)) \<le> fuel"
    for fuel w rest
  proof (cases "vs = []")
    case True
    obtain f where f: "fuel = Suc f"
      using fuel True by (cases fuel) simp_all
    have "parse_value (Suc f) (CHR ''['' # CHR '']'' # rest) = Some (JArr [], rest)"
      by (simp add: skip_whitespace_stop is_whitespace_def)
    then show ?thesis
      using w True by (simp add: f parse_value_blank del: parse_value.simps)
  next
    case False
    obtain v vs' where vs: "vs = v # vs'"
      using False by (cases vs) auto
    obtain c r where cr: "SerializeJSON gap ?inner v = c # r"
      and c: "\<not> is_whitespace c" "c \<noteq> CHR '']''"
      using SerializeJSON_start [of gap ?inner v] by blast
    obtain r' where body: "?body = c # r'"
      by (cases vs') (simp_all add: vs cr)
    obtain f where f: "fuel = Suc f"
      using fuel by (cases fuel) (simp_all add: SerializeJSON_array False del: SerializeJSON.simps)
    have len: "length ?body < f"
      using fuel by (simp add: f SerializeJSON_array False del: SerializeJSON.simps)
    have elements: "parse_elements f (?sep @ ?body @ ?close @ CHR '']'' # rest) = Some (vs, rest)"
      using each sep len by (intro parse_elements_intercalate False sep close)
    have "skip_whitespace (?sep @ ?body @ ?close @ CHR '']'' # rest) = c # r' @ ?close @ CHR '']'' # rest"
      using sep c(1) by (simp add: skip_whitespace_blank body skip_whitespace_stop)
    then have "parse_value (Suc f) (CHR ''['' # ?sep @ ?body @ ?close @ CHR '']'' # rest)
        = Some (JArr vs, rest)"
      using elements c(2) by (simp add: skip_whitespace_stop is_whitespace_def)
    then show ?thesis
      using w False
      by (simp add: f parse_value_blank SerializeJSON_array
          del: parse_value.simps SerializeJSON.simps)
  qed
  then show ?case
    by (simp add: reads_back_def del: SerializeJSON.simps)
next
  case (JObj kvs)
  let ?inner = "indent @ gap"
  let ?sep = "line_break gap ?inner"
  let ?close = "line_break gap indent"
  let ?body = "intercalate (CHR '','' # ?sep) (map (member_text gap ?inner) kvs)"
  have inner: "blank ?inner" and sep: "blank ?sep" and close: "blank ?close"
    using JObj.prems by (simp_all add: blank_append blank_line_break)
  have each: "\<forall>kv \<in> set kvs. reads_back gap ?inner (snd kv)"
  proof
    fix kv
    assume kv: "kv \<in> set kvs"
    have "distinct_keys (snd kv)"
      using JObj.prems(2) kv by auto
    then show "reads_back gap ?inner (snd kv)"
      using JObj.IH [of kv "snd kv" ?inner] kv JObj.prems(1) inner
      by (cases kv) simp
  qed
  have keys: "object_of kvs = JObj kvs"
    using JObj.prems(2) by (intro object_of_distinct) simp
  have "parse_value fuel (w @ SerializeJSON gap indent (JObj kvs) @ rest) = Some (JObj kvs, rest)"
    if w: "blank w" and fuel: "length (SerializeJSON gap indent (JObj kvs)) \<le> fuel"
    for fuel w rest
  proof (cases "kvs = []")
    case True
    obtain f where f: "fuel = Suc f"
      using fuel True by (cases fuel) simp_all
    have "parse_value (Suc f) (CHR ''{'' # CHR ''}'' # rest) = Some (JObj [], rest)"
      by (simp add: skip_whitespace_stop is_whitespace_def)
    then show ?thesis
      using w True by (simp add: f parse_value_blank del: parse_value.simps)
  next
    case False
    obtain kv kvs' where kvs: "kvs = kv # kvs'"
      using False by (cases kvs) auto
    obtain r' where body: "?body = CHR 0x22 # r'"
      by (cases kvs') (simp_all add: kvs member_text_def QuoteJSONString_def)
    obtain f where f: "fuel = Suc f"
      using fuel by (cases fuel) (simp_all add: SerializeJSON_object False del: SerializeJSON.simps)
    have len: "length ?body < f"
      using fuel by (simp add: f SerializeJSON_object False del: SerializeJSON.simps)
    have members: "parse_members f (?sep @ ?body @ ?close @ CHR ''}'' # rest) = Some (kvs, rest)"
      using each sep len by (intro parse_members_intercalate False sep close JObj.prems(1))
    have "skip_whitespace (?sep @ ?body @ ?close @ CHR ''}'' # rest)
        = CHR 0x22 # r' @ ?close @ CHR ''}'' # rest"
      using sep by (simp add: skip_whitespace_blank body skip_whitespace_stop is_whitespace_def)
    then have "parse_value (Suc f) (CHR ''{'' # ?sep @ ?body @ ?close @ CHR ''}'' # rest)
        = Some (JObj kvs, rest)"
      using members keys by (simp add: skip_whitespace_stop is_whitespace_def)
    then show ?thesis
      using w False
      by (simp add: f parse_value_blank SerializeJSON_object
          del: parse_value.simps SerializeJSON.simps)
  qed
  then show ?case
    by (simp add: reads_back_def del: SerializeJSON.simps)
qed

lemma ParseJSON_SerializeJSON:
  assumes "blank gap" and "distinct_keys v"
  shows "ParseJSON (SerializeJSON gap [] v) = Some v"
proof -
  have "reads_back gap [] v"
    using assms by (intro reads_back_SerializeJSON) (simp_all add: blank_def)
  then have "blank [] \<longrightarrow> ends_number []
      \<longrightarrow> length (SerializeJSON gap [] v) \<le> length (SerializeJSON gap [] v)
      \<longrightarrow> parse_value (length (SerializeJSON gap [] v)) ([] @ SerializeJSON gap [] v @ [])
          = Some (v, [])"
    unfolding reads_back_def by blast
  then have "parse_value (length (SerializeJSON gap [] v)) (SerializeJSON gap [] v) = Some (v, [])"
    by (simp add: blank_def ends_number_def del: parse_value.simps)
  then show ?thesis
    by (simp add: ParseJSON_def skip_whitespace_def)
qed


lemma ParseJSON_JSON_stringify:
  "distinct_keys v \<Longrightarrow> ParseJSON (JSON_stringify v) = Some v"
  unfolding JSON_stringify_def
  by (intro ParseJSON_SerializeJSON) (simp_all add: blank_def)






section \<open>Properties of the session file\<close>

text \<open>A session written as JSON is read back, through the interface's types, as it was.\<close>

lemma as_TaskStatusSnapshot_json [simp]:
  "as_TaskStatusSnapshot (TaskStatusSnapshot_json t) = Some t"
  by (simp add: as_TaskStatusSnapshot_def TaskStatusSnapshot_json_def get_string_def get_boolean_def)

lemma as_string_JStr [simp]: "as_string (JStr x) = Some x"
  by (simp add: as_string_def)

lemma get_array_here:
  assumes "\<And>x. f (g x) = Some x"
  shows "get_array f ((k, JArr (map g xs)) # kvs) k = Some xs"
  using assms by (auto simp: get_array_def list_all_iff comp_def intro!: map_idI)

lemma get_array_skip:
  "k' \<noteq> k \<Longrightarrow> get_array f ((k', v) # kvs) k = get_array f kvs k"
  by (simp add: get_array_def)

lemma as_TrackerStateSnapshot_json [simp]:
  "as_TrackerStateSnapshot (TrackerStateSnapshot_json t) = Some t"
  by (cases "TrackerStateSnapshot.epicId t"; cases "TrackerStateSnapshot.prdPath t")
     (simp_all add: as_TrackerStateSnapshot_def TrackerStateSnapshot_json_def get_string_def
        get_number_def get_optional_string_def opt_prop_def get_array_here get_array_skip)

lemma as_PersistedIterationResult_json [simp]:
  "as_PersistedIterationResult (PersistedIterationResult_json t) = Some t"
  by (cases "PersistedIterationResult.error t")
     (simp_all add: as_PersistedIterationResult_def PersistedIterationResult_json_def get_string_def
        get_number_def get_boolean_def get_optional_string_def opt_prop_def)


text \<open>
  C1, as the code has it. \<open>savePersistedSession\<close> makes one file-system call: a
  \<open>writeFile\<close> of the serialised state, with \<open>updatedAt\<close> set to the clock reading,
  straight to \<open><cwd>/.ralph-tui-session.json\<close>. There is no temporary file, no fsync and
  no rename.
\<close>

theorem savePersistedSession_direct_write:
  "calls (snd (savePersistedSession now s w))
     = calls w @ [WriteFile (cwd s @ ''/.ralph-tui-session.json'')
                    (JSON_stringify_indent 2 (PersistedSessionState_json (s\<lparr> updatedAt := now \<rparr>)))]"
  by (auto simp: savePersistedSession_def writeFile_def updatedState_def Let_def
      getSessionFilePath_def join_def SESSION_FILE_def split: option.splits node.splits)

text \<open>
  The calls of a save are not the sequence the claim describes (write \<open><file>.tmp\<close>, fsync
  it, rename it over the target): here for the example session and an empty file system.
\<close>

theorem savePersistedSession_atomic_counterexample:
  "calls (snd (savePersistedSession ''2024-01-01T00:10:00.000Z'' example_session empty_world))
     \<noteq> [WriteFile (getSessionFilePath (cwd example_session) @ ''.tmp'')
           (JSON_stringify_indent 2
              (PersistedSessionState_json (updatedState ''2024-01-01T00:10:00.000Z'' example_session))),
         Fsync (getSessionFilePath (cwd example_session) @ ''.tmp''),
         Rename (getSessionFilePath (cwd example_session) @ ''.tmp'')
           (getSessionFilePath (cwd example_session))]"
  by (simp add: savePersistedSession_def writeFile_def empty_world_def Let_def)

text \<open>
  C5. When the session file is absent, \<open>loadPersistedSession\<close> returns null and warns of
  nothing. When the file is there and parses to an object whose \<open>version\<close> is not the
  number 1 (or is missing), it logs one warning and still returns the parsed object.
\<close>

theorem loadPersistedSession_absent_or_unknown_version:
  "(files w (getSessionFilePath dir) = None
      \<longrightarrow> fst (loadPersistedSession JSON_parse dir w) = Inr None
          \<and> console (snd (loadPersistedSession JSON_parse dir w)) = console w)
   \<and> (files w' (getSessionFilePath dir') = Some (File content)
        \<and> JSON_parse' content = Some (JObj kvs)
        \<and> map_of kvs ''version'' \<noteq> Some (JNum 1)
      \<longrightarrow> fst (loadPersistedSession JSON_parse' dir' w') = Inr (Some (JObj kvs))
          \<and> console (snd (loadPersistedSession JSON_parse' dir' w'))
              = console w' @ [UnknownVersion (map_of kvs ''version'')])"
  by (simp add: loadPersistedSession_def readFile_def property_def console_warn_def Let_def)

theorem loadPersistedSession_absent_or_unknown_version_witness:
  "files empty_world (getSessionFilePath ''/work'') = None
   \<and> fst (loadPersistedSession (\<lambda>text. None) ''/work'' empty_world) = Inr None
   \<and> files (empty_world\<lparr> files := [getSessionFilePath ''/work'' \<mapsto> File version2_text] \<rparr>)
        (getSessionFilePath ''/work'') = Some (File version2_text)
   \<and> (\<lambda>text. if text = version2_text then Some (JObj [(''version'', JNum 2)]) else None)
        version2_text = Some (JObj [(''version'', JNum 2)])
   \<and> map_of [(''version'', JNum 2)] ''version'' \<noteq> Some (JNum 1)
   \<and> fst (loadPersistedSession
        (\<lambda>text. if text = version2_text then Some (JObj [(''version'', JNum 2)]) else None)
        ''/work'' (empty_world\<lparr> files := [getSessionFilePath ''/work'' \<mapsto> File version2_text] \<rparr>))
      = Inr (Some (JObj [(''version'', JNum 2)]))
   \<and> console (snd (loadPersistedSession
        (\<lambda>text. if text = version2_text then Some (JObj [(''version'', JNum 2)]) else None)
        ''/work'' (empty_world\<lparr> files := [getSessionFilePath ''/work'' \<mapsto> File version2_text] \<rparr>)))
      = [UnknownVersion (Some (JNum 2))]"
proof -
  have h1: "files empty_world (getSessionFilePath ''/work'') = None"
    by (simp add: empty_world_def)
  have h2: "files (empty_world\<lparr> files := [getSessionFilePath ''/work'' \<mapsto> File version2_text] \<rparr>)
        (getSessionFilePath ''/work'') = Some (File version2_text)"
    by simp
  have c: "console empty_world = []"
    by (simp add: empty_world_def)
  show ?thesis
    using h1 h2 c
      loadPersistedSession_absent_or_unknown_version
        [of empty_world "''/work''" "\<lambda>text. None"
            "empty_world\<lparr> files := [getSessionFilePath ''/work'' \<mapsto> File version2_text] \<rparr>"
            "''/work''" "version2_text"
            "\<lambda>text. if text = version2_text then Some (JObj [(''version'', JNum 2)]) else None"
            "[(''version'', JNum 2)]"]
    by simp
qed





section \<open>Invariants of a session\<close>

lemma session_inv_create: "session_inv t0 (createPersistedSession t0 opts)"
  by (simp add: session_inv_def createPersistedSession_def completedTaskIds_def)

lemma session_inv_apply_op:
  assumes "session_inv t0 s"
    and "case op of Update r \<Rightarrow> IterationResult.iteration r = currentIteration s + 1 | _ \<Rightarrow> True"
  shows "session_inv t0 (apply_op s op)"
  using assms
  by (cases op)
     (auto simp: session_inv_def completedTaskIds_def updateSessionAfterIteration_def
        updatedTasks_def iterationRecord_def pauseSession_def resumePersistedSession_def
        completeSession_def failSession_def addSkippedTask_def)

lemma currentIteration_apply_op:
  "currentIteration (apply_op s op) = (case op of Update r \<Rightarrow> IterationResult.iteration r | _ \<Rightarrow> currentIteration s)"
  by (cases op)
     (auto simp: updateSessionAfterIteration_def pauseSession_def resumePersistedSession_def
        completeSession_def failSession_def addSkippedTask_def)

lemma session_inv_foldl:
  "session_inv t0 s \<Longrightarrow> consecutive (currentIteration s) ops \<Longrightarrow> session_inv t0 (foldl apply_op s ops)"
proof (induction ops arbitrary: s)
  case Nil
  then show ?case by simp
next
  case (Cons op ops)
  have step: "session_inv t0 (apply_op s op)"
    using Cons.prems by (intro session_inv_apply_op) (auto split: session_op.splits)
  have "consecutive (currentIteration (apply_op s op)) ops"
    using Cons.prems(2) by (cases op) (simp_all add: currentIteration_apply_op del: apply_op.simps)
  with step show ?case
    using Cons.IH by simp
qed

lemma distinct_subset_length:
  assumes "distinct xs" and "set xs \<subseteq> set ys"
  shows "length xs \<le> length ys"
proof -
  have "length xs = card (set xs)"
    using assms(1) by (simp add: distinct_card)
  also have "\<dots> \<le> card (set ys)"
    using assms(2) by (simp add: card_mono)
  also have "\<dots> \<le> length ys"
    by (rule card_length)
  finally show ?thesis .
qed

text \<open>
  C3, as the code has it. Take any history with consecutively numbered iteration results,
  starting from a session created at time \<open>t0\<close>, and let \<open>p\<close> be what a save at a time
  \<open>now\<close>, not before \<open>t0\<close>, writes. Then \<open>updatedAt\<close> is not before \<open>startedAt\<close>, in
  memory and in \<open>p\<close>; the number of stored iteration records is \<open>currentIteration\<close>;
  and \<open>tasksCompleted\<close> is the number of records that report their task completed, so at
  most \<open>currentIteration\<close>. It is at most \<open>totalTasks\<close> when those records name pairwise
  distinct tasks of the tracker snapshot; the mutators themselves do not bound it by
  \<open>totalTasks\<close>.
\<close>

theorem session_invariants:
  assumes ops: "consecutive 0 ops"
    and clock: "t0 \<le> now"
    and s: "s = foldl apply_op (createPersistedSession t0 opts) ops"
    and p: "p = updatedState now s"
  shows "startedAt s \<le> updatedAt s
    \<and> startedAt p \<le> updatedAt p
    \<and> int (length (iterations s)) = currentIteration s
    \<and> int (length (iterations p)) = currentIteration p
    \<and> tasksCompleted p = int (length (completedTaskIds p))
    \<and> tasksCompleted p = tasksCompleted s
    \<and> tasksCompleted p \<le> currentIteration p
    \<and> (distinct (completedTaskIds p)
          \<and> set (completedTaskIds p)
              \<subseteq> set (map TaskStatusSnapshot.id (TrackerStateSnapshot.tasks (trackerState p)))
        \<longrightarrow> tasksCompleted p \<le> totalTasks (trackerState p))"
proof -
  have inv: "session_inv t0 s"
    unfolding s using ops
    by (intro session_inv_foldl session_inv_create) (simp add: createPersistedSession_def)
  have le: "int (length (filter PersistedIterationResult.taskCompleted (iterations s)))
      \<le> int (length (iterations s))"
    by simp
  have bound: "tasksCompleted p \<le> totalTasks (trackerState p)"
    if "distinct (completedTaskIds p)"
      and "set (completedTaskIds p)
            \<subseteq> set (map TaskStatusSnapshot.id (TrackerStateSnapshot.tasks (trackerState p)))"
  proof -
    have "length (completedTaskIds p)
        \<le> length (map TaskStatusSnapshot.id (TrackerStateSnapshot.tasks (trackerState p)))"
      using that by (rule distinct_subset_length)
    then show ?thesis
      using inv by (simp add: p updatedState_def session_inv_def completedTaskIds_def)
  qed
  show ?thesis
    using inv clock le bound
    by (simp add: p updatedState_def session_inv_def completedTaskIds_def)
qed

theorem session_invariants_witness:
  "consecutive 0 example_history
   \<and> ''2024-01-01T00:00:00.000Z'' \<le> ''2024-01-01T00:10:00.000Z''
   \<and> distinct (completedTaskIds (updatedState ''2024-01-01T00:10:00.000Z''
        (foldl apply_op example_session example_history)))
   \<and> set (completedTaskIds (updatedState ''2024-01-01T00:10:00.000Z''
        (foldl apply_op example_session example_history)))
      \<subseteq> set (map TaskStatusSnapshot.id (TrackerStateSnapshot.tasks (trackerState
          (updatedState ''2024-01-01T00:10:00.000Z''
             (foldl apply_op example_session example_history)))))
   \<and> startedAt (updatedState ''2024-01-01T00:10:00.000Z''
        (foldl apply_op example_session example_history))
      \<le> updatedAt (updatedState ''2024-01-01T00:10:00.000Z''
        (foldl apply_op example_session example_history))
   \<and> int (length (iterations (updatedState ''2024-01-01T00:10:00.000Z''
        (foldl apply_op example_session example_history))))
      = currentIteration (updatedState ''2024-01-01T00:10:00.000Z''
        (foldl apply_op example_session example_history))
   \<and> tasksCompleted (updatedState ''2024-01-01T00:10:00.000Z''
        (foldl apply_op example_session example_history))
      \<le> totalTasks (trackerState (updatedState ''2024-01-01T00:10:00.000Z''
        (foldl apply_op example_session example_history)))"
proof -
  have h1: "consecutive 0 example_history"
    by (simp add: example_history_def example_result_def)
  have h2: "(''2024-01-01T00:00:00.000Z'' :: string) \<le> ''2024-01-01T00:10:00.000Z''"
    by simp
  have ids: "completedTaskIds (updatedState ''2024-01-01T00:10:00.000Z''
        (foldl apply_op example_session example_history)) = [''a'']"
    by (simp add: completedTaskIds_def updatedState_def example_session_def example_history_def
        createPersistedSession_def example_options_def example_result_def example_task_def
        updateSessionAfterIteration_def iterationRecord_def pauseSession_def
        resumePersistedSession_def addSkippedTask_def)
  have snap: "map TaskStatusSnapshot.id (TrackerStateSnapshot.tasks (trackerState
        (updatedState ''2024-01-01T00:10:00.000Z''
           (foldl apply_op example_session example_history)))) = [''a'']"
    by (simp add: updatedState_def example_session_def example_history_def
        createPersistedSession_def example_options_def example_result_def example_task_def
        updateSessionAfterIteration_def updatedTasks_def pauseSession_def
        resumePersistedSession_def addSkippedTask_def)
  show ?thesis
    using h1 h2 ids snap
      session_invariants [OF h1 h2 refl refl, of example_options]
    by (simp add: example_session_def)
qed

text \<open>
  Two results that report their task completed, the second for a task that is not in the
  snapshot taken when the session started, give \<open>tasksCompleted = 2\<close> with
  \<open>totalTasks = 1\<close>.
\<close>

theorem tasksCompleted_bound_counterexample:
  "consecutive 0 [Update example_result, Update example_result2]
   \<and> \<not> tasksCompleted (foldl apply_op example_session [Update example_result, Update example_result2])
        \<le> totalTasks (trackerState
             (foldl apply_op example_session [Update example_result, Update example_result2]))"
  by (simp add: example_session_def createPersistedSession_def example_options_def
      example_result_def example_result2_def example_task_def updateSessionAfterIteration_def)


section \<open>Properties of the remote constants\<close>

text \<open>
  C8. The token lifetimes are 90 days, 24 hours and 1 hour, and the reconnect defaults are
  1000 ms, 30000 ms, multiplier 2, 10 retries and 3 silent retries: the values the test
  of the remote module expects of the declared constants.
\<close>

theorem remote_constants:
  "SERVER_TOKEN_DAYS TOKEN_LIFETIMES = 90
   \<and> CONNECTION_TOKEN_HOURS TOKEN_LIFETIMES = 24
   \<and> REFRESH_THRESHOLD_HOURS TOKEN_LIFETIMES = 1
   \<and> initialDelayMs DEFAULT_RECONNECT_CONFIG = 1000
   \<and> maxDelayMs DEFAULT_RECONNECT_CONFIG = 30000
   \<and> backoffMultiplier DEFAULT_RECONNECT_CONFIG = 2
   \<and> maxRetries DEFAULT_RECONNECT_CONFIG = 10
   \<and> silentRetryThreshold DEFAULT_RECONNECT_CONFIG = 3"
  by (simp add: TOKEN_LIFETIMES_def DEFAULT_RECONNECT_CONFIG_def)


section \<open>Properties of the extraction\<close>

lemma passes_Nil: "passes d []"
  by (simp add: passes_def)

lemma passes_append: "passes d xs \<Longrightarrow> passes d ys \<Longrightarrow> passes d (xs @ ys)"
  by (simp add: passes_def add.assoc)

lemma passes_plain1: "plain c \<Longrightarrow> d \<noteq> 0 \<Longrightarrow> passes d [c]"
  by (simp add: passes_def plain_def)

lemma passes_plain: "\<forall>c \<in> set xs. plain c \<Longrightarrow> d \<noteq> 0 \<Longrightarrow> passes d xs"
proof (induction xs)
  case Nil
  show ?case by (rule passes_Nil)
next
  case (Cons c xs)
  have "passes d ([c] @ xs)"
    using Cons by (intro passes_append passes_plain1) simp_all
  then show ?case by simp
qed

lemma hex_digit_plain: "d < 16 \<Longrightarrow> hex_digit d \<noteq> CHR 0x22 \<and> hex_digit d \<noteq> CHR 0x5C"
proof -
  assume d: "d < 16"
  have v: "(of_char (hex_digit d) :: nat) = (if d < 10 then 48 + d else 87 + d)"
    using d by (simp add: hex_digit_def)
  have "(of_char (hex_digit d) :: nat) \<noteq> of_char (CHR 0x22)"
    unfolding v by simp
  moreover have "(of_char (hex_digit d) :: nat) \<noteq> of_char (CHR 0x5C)"
    unfolding v using d by simp
  ultimately show ?thesis
    by metis
qed


lemma in_string_quote_char: "in_string d (quote_char c)"
proof -
  have h: "hex_digit (of_char c div 16) \<noteq> CHR 0x22 \<and> hex_digit (of_char c div 16) \<noteq> CHR 0x5C
      \<and> hex_digit (of_char c mod 16) \<noteq> CHR 0x22 \<and> hex_digit (of_char c mod 16) \<noteq> CHR 0x5C"
    if "(of_char c :: nat) < 32"
    using that hex_digit_plain [of "of_char c div 16"] hex_digit_plain [of "of_char c mod 16"]
    by simp
  show ?thesis
    using h by (simp add: in_string_def quote_char_def)
qed

lemma in_string_concat: "in_string d (concat (map quote_char s))"
proof (induction s)
  case Nil
  show ?case by (simp add: in_string_def)
next
  case (Cons c s)
  then show ?case
    using in_string_quote_char [of d c] by (simp add: in_string_def add.assoc)
qed

lemma passes_QuoteJSONString: "passes d (QuoteJSONString s)"
  using in_string_concat [of d s]
  by (simp add: passes_def in_string_def QuoteJSONString_def add.assoc)

lemma plain_digit: "(k::nat) < 10 \<Longrightarrow> plain (char_of (48 + k))"
proof -
  assume k: "k < (10::nat)"
  have v: "(of_char (char_of (48 + k)) :: nat) = 48 + k"
    using k by simp
  have "(of_char (char_of (48 + k)) :: nat) \<noteq> of_char (CHR 0x22)"
    "(of_char (char_of (48 + k)) :: nat) \<noteq> of_char (CHR 0x5C)"
    "(of_char (char_of (48 + k)) :: nat) \<noteq> of_char (CHR ''{'')"
    "(of_char (char_of (48 + k)) :: nat) \<noteq> of_char (CHR ''}'')"
    unfolding v using k by simp_all
  then show ?thesis
    unfolding plain_def by metis
qed

lemma plain_digits: "\<forall>c \<in> set (digits n). plain c"
proof (induction n rule: digits.induct)
  case (1 n)
  show ?case
  proof (cases "n < 10")
    case True
    then show ?thesis
      using plain_digit [of n] by (subst digits.simps) simp
  next
    case False
    then show ?thesis
      using 1 plain_digit [of "n mod 10"] by (subst digits.simps) simp
  qed
qed

lemma plain_NumberToString: "\<forall>c \<in> set (NumberToString n). plain c"
  using plain_digits by (simp add: NumberToString_def plain_def)

lemma passes_intercalate:
  assumes "\<forall>p \<in> set ps. passes d p" and "passes d sep"
  shows "passes d (intercalate sep ps)"
  using assms
proof (induction sep ps rule: intercalate.induct)
  case (1 sep)
  show ?case by (simp add: passes_Nil)
next
  case (2 sep x)
  then show ?case by simp
next
  case (3 sep x y ys)
  then show ?case by (simp add: passes_append)
qed

lemma passes_braces:
  assumes "passes (d + 1) body" and "d \<noteq> 0" and "d + 1 \<noteq> 0"
  shows "passes d (CHR ''{'' # body @ ''}'')"
  using assms by (simp add: passes_def)

lemma JSON_stringify_array:
  "SerializeJSON [] [] (JArr vs) =
     (if vs = [] then ''[]''
      else ''['' @ intercalate '','' (map (SerializeJSON [] []) vs) @ '']'')"
  by (simp add: Let_def)

lemma JSON_stringify_object:
  "SerializeJSON [] [] (JObj kvs) =
     (if kvs = [] then ''{}''
      else CHR ''{'' # intercalate '',''
             (map (\<lambda>(k, v). QuoteJSONString k @ '':'' @ SerializeJSON [] [] v) kvs) @ ''}'')"
  by (simp add: Let_def)

lemma passes_SerializeJSON: "0 < d \<Longrightarrow> passes d (SerializeJSON [] [] v)"
proof (induction v arbitrary: d)
  case JNull
  then show ?case by (intro passes_plain) (simp_all add: plain_def)
next
  case (JBool b)
  then show ?case by (intro passes_plain) (simp_all add: plain_def)
next
  case (JNum n)
  then show ?case using plain_NumberToString by (intro passes_plain) simp_all
next
  case (JStr s)
  show ?case by (simp add: passes_QuoteJSONString)
next
  case (JArr vs)
  have parts: "\<forall>p \<in> set (map (SerializeJSON [] []) vs). passes d p"
    using JArr by auto
  have sep: "passes d '',''"
    using JArr.prems by (intro passes_plain) (simp_all add: plain_def)
  have "passes d (''['' @ intercalate '','' (map (SerializeJSON [] []) vs) @ '']'')"
    using JArr.prems parts sep
    by (intro passes_append passes_intercalate passes_plain) (simp_all add: plain_def)
  moreover have "passes d ''[]''"
    using JArr.prems by (intro passes_plain) (simp_all add: plain_def)
  ultimately show ?case by (simp add: JSON_stringify_array del: SerializeJSON.simps)
next
  case (JObj kvs)
  have member: "passes (d + 1) (QuoteJSONString k @ '':'' @ SerializeJSON [] [] v)"
    if "(k, v) \<in> set kvs" for k v
  proof -
    have "passes (d + 1) (SerializeJSON [] [] v)"
      using JObj.IH [of "(k, v)" v "d + 1"] that JObj.prems by simp
    moreover have "passes (d + 1) '':''"
      using JObj.prems by (intro passes_plain) (simp_all add: plain_def)
    ultimately show ?thesis
      by (intro passes_append passes_QuoteJSONString)
  qed
  have sep: "passes (d + 1) '',''"
    using JObj.prems by (intro passes_plain) (simp_all add: plain_def)
  have "passes (d + 1) (intercalate '',''
      (map (\<lambda>(k, v). QuoteJSONString k @ '':'' @ SerializeJSON [] [] v) kvs))"
    using member sep by (intro passes_intercalate) auto
  then have "passes d (CHR ''{'' # intercalate '',''
      (map (\<lambda>(k, v). QuoteJSONString k @ '':'' @ SerializeJSON [] [] v) kvs) @ ''}'')"
    using JObj.prems by (intro passes_braces) simp_all
  moreover have "passes d ''{}''"
    using passes_braces [of d "[]"] JObj.prems by (simp add: passes_Nil)
  ultimately show ?case by (simp add: JSON_stringify_object del: SerializeJSON.simps)
qed


lemma object_text:
  assumes "is_object v"
  obtains body where "JSON_stringify v = CHR ''{'' # body @ ''}''" and "passes 1 body"
proof -
  from assms obtain kvs where v: "v = JObj kvs"
    by (cases v) (simp_all add: is_object_def)
  show ?thesis
  proof (cases "kvs = []")
    case True
    have "JSON_stringify v = CHR ''{'' # [] @ ''}''"
      using v True by (simp add: JSON_stringify_def)
    then show ?thesis
      using that passes_Nil by blast
  next
    case False
    let ?body = "intercalate '','' (map (\<lambda>(k, v). QuoteJSONString k @ '':'' @ SerializeJSON [] [] v) kvs)"
    have "passes 1 (QuoteJSONString k @ '':'' @ SerializeJSON [] [] x)" for k x
      by (intro passes_append passes_QuoteJSONString passes_SerializeJSON passes_plain)
         (simp_all add: plain_def)
    then have member: "passes 1 (QuoteJSONString k @ CHR '':'' # SerializeJSON [] [] x)" for k x
      by simp
    have "passes 1 ?body"
      by (intro passes_intercalate passes_plain) (auto simp: plain_def member)
    moreover have "JSON_stringify v = CHR ''{'' # ?body @ ''}''"
      using v False by (simp add: JSON_stringify_def JSON_stringify_object del: SerializeJSON.simps)
    ultimately show ?thesis
      using that by blast
  qed
qed

lemma scan_object:
  assumes "is_object v"
  shows "scan i 0 False False (JSON_stringify v @ rest) = Some (i + length (JSON_stringify v) - 1)"
proof -
  from assms obtain body where t: "JSON_stringify v = CHR ''{'' # body @ ''}''" and b: "passes 1 body"
    by (rule object_text)
  have "scan i 0 False False (CHR ''{'' # body @ ''}'' @ rest)
      = scan (i + 1) 1 False False (body @ CHR ''}'' # rest)"
    by simp
  also have "\<dots> = scan (i + 1 + length body) 1 False False (CHR ''}'' # rest)"
    using b by (simp add: passes_def)
  also have "\<dots> = Some (i + 1 + length body)"
    by simp
  finally show ?thesis
    by (simp add: t)
qed

lemma scan_Some_bounds:
  "scan i d s e xs = Some k \<Longrightarrow> i \<le> k \<and> k < i + length xs"
proof (induction xs arbitrary: i d s e)
  case Nil
  then show ?case by simp
next
  case (Cons c xs)
  show ?case
    using Cons.prems Cons.IH
    by (fastforce simp: Let_def split: if_splits)
qed

lemma scan_Some_append:
  "scan i d s e xs = Some k \<Longrightarrow> scan i d s e (xs @ ys) = Some k"
proof (induction xs arbitrary: i d s e)
  case Nil
  then show ?case by simp
next
  case (Cons c xs)
  show ?case
    using Cons.prems Cons.IH
    by (auto simp: Let_def split: if_splits)
qed

lemma scan_truncated:
  assumes "is_object v" and "JSON_stringify v = partial @ missing" and "missing \<noteq> []"
  shows "scan i 0 False False partial = None"
proof (cases "scan i 0 False False partial")
  case None
  then show ?thesis .
next
  case (Some k)
  have "k < i + length partial"
    using scan_Some_bounds [OF Some] by simp
  moreover have "scan i 0 False False (partial @ missing @ []) = Some k"
    using scan_Some_append [OF Some] by simp
  moreover have "scan i 0 False False (partial @ missing @ []) = Some (i + length (partial @ missing) - 1)"
    using scan_object [OF assms(1), of i "[]"] assms(2) by simp
  ultimately show ?thesis
    using assms(3) by (cases missing) simp_all
qed

lemma indexOf_absent: "c \<notin> set xs \<Longrightarrow> indexOf c xs = None"
  by (induction xs) auto

lemma indexOf_first: "c \<notin> set xs \<Longrightarrow> indexOf c (xs @ c # ys) = Some (length xs)"
  by (induction xs) auto

lemma extractLoop_object:
  assumes junk: "CHR ''{'' \<notin> set junk"
    and obj: "is_object v"
    and parse: "JSON_parse (JSON_stringify v) = Some v"
  shows "extractLoop JSON_parse objects (junk @ JSON_stringify v @ rest)
           = extractLoop JSON_parse (objects @ [v]) rest"
proof -
  from obj obtain body where t: "JSON_stringify v = CHR ''{'' # body @ ''}''"
    by (rule object_text)
  let ?n = "length (JSON_stringify v)"
  have n: "0 < ?n"
    by (simp add: t)
  have start: "indexOf CHR ''{'' (junk @ JSON_stringify v @ rest) = Some (length junk)"
    using indexOf_first [OF junk] by (simp add: t)
  have "scan (length junk) 0 False False (drop (length junk) (junk @ JSON_stringify v @ rest))
      = Some (length junk + ?n - 1)"
    using scan_object [OF obj] by simp
  moreover have "substring (junk @ JSON_stringify v @ rest) (length junk) (length junk + ?n - 1 + 1)
      = JSON_stringify v"
    using n by (simp add: substring_def)
  moreover have "drop (length junk + ?n - 1 + 1) (junk @ JSON_stringify v @ rest) = rest"
    using n by simp
  ultimately show ?thesis
    using start parse
    by (subst extractLoop.simps) (simp add: Let_def)
qed

lemma extractLoop_no_brace:
  "CHR ''{'' \<notin> set junk \<Longrightarrow> extractLoop JSON_parse objects junk = (objects, [])"
  by (subst extractLoop.simps) (simp add: indexOf_absent)

lemma extractLoop_truncated:
  assumes junk: "CHR ''{'' \<notin> set junk"
    and obj: "is_object v"
    and trunc: "JSON_stringify v = partial @ missing" "partial \<noteq> []" "missing \<noteq> []"
  shows "extractLoop JSON_parse objects (junk @ partial) = (objects, partial)"
proof -
  from obj obtain body where t: "JSON_stringify v = CHR ''{'' # body @ ''}''"
    by (rule object_text)
  obtain tl where p: "partial = CHR ''{'' # tl"
    using trunc(1,2) t by (cases partial) auto
  have start: "indexOf CHR ''{'' (junk @ partial) = Some (length junk)"
    using indexOf_first [OF junk] by (simp add: p)
  have "scan (length junk) 0 False False (drop (length junk) (junk @ partial)) = None"
    using scan_truncated [OF obj trunc(1) trunc(3)] by simp
  then show ?thesis
    using start by (subst extractLoop.simps) simp
qed

lemma extractLoop_stream:
  assumes "\<forall>(junk, v) \<in> set segs.
      CHR ''{'' \<notin> set junk \<and> is_object v \<and> JSON_parse (JSON_stringify v) = Some v"
  shows "extractLoop JSON_parse objects (stream_text segs @ rest)
           = extractLoop JSON_parse (objects @ map snd segs) rest"
  using assms
proof (induction segs arbitrary: objects)
  case Nil
  show ?case by (simp add: stream_text_def)
next
  case (Cons seg segs)
  obtain junk v where seg: "seg = (junk, v)"
    by (cases seg)
  have "extractLoop JSON_parse objects (stream_text (seg # segs) @ rest)
      = extractLoop JSON_parse objects (junk @ JSON_stringify v @ (stream_text segs @ rest))"
    by (simp add: stream_text_def seg)
  also have "\<dots> = extractLoop JSON_parse (objects @ [v]) (stream_text segs @ rest)"
    using Cons.prems by (intro extractLoop_object) (simp_all add: seg)
  also have "\<dots> = extractLoop JSON_parse ((objects @ [v]) @ map snd segs) rest"
    using Cons.prems by (intro Cons.IH) simp
  finally show ?case
    by (simp add: seg)
qed

text \<open>
  C10. Take a stream of JSON objects, each written by \<open>JSON.stringify\<close> and each preceded
  by text without \<open>{\<close>, and followed by more text without \<open>{\<close>. \<open>extractJsonObjects\<close>
  returns the objects in order and nothing remaining. When the stream ends instead in an
  object whose text is cut short, it returns the complete objects, and what remains is the
  cut text from its opening brace on. \<open>JSON.parse\<close> is assumed to read back the text that
  \<open>JSON.stringify\<close> wrote for each object of the stream.
\<close>

theorem extractJsonObjects_stream:
  assumes segs: "\<forall>(junk, v) \<in> set segs.
      CHR ''{'' \<notin> set junk \<and> is_object v \<and> JSON_parse (JSON_stringify v) = Some v"
    and tail: "CHR ''{'' \<notin> set tail"
  shows "extractJsonObjects JSON_parse (stream_text segs @ tail) = (map snd segs, [])
    \<and> (is_object v' \<and> JSON_stringify v' = partial @ missing \<and> partial \<noteq> [] \<and> missing \<noteq> []
        \<longrightarrow> extractJsonObjects JSON_parse (stream_text segs @ tail @ partial)
              = (map snd segs, partial))"
proof -
  have complete: "extractJsonObjects JSON_parse (stream_text segs @ tail) = (map snd segs, [])"
    using extractLoop_stream [OF segs, of "[]"] extractLoop_no_brace [OF tail]
    by (simp add: extractJsonObjects_def)
  have truncated: "extractJsonObjects JSON_parse (stream_text segs @ tail @ partial)
      = (map snd segs, partial)"
    if "is_object v'" and "JSON_stringify v' = partial @ missing"
      and "partial \<noteq> []" and "missing \<noteq> []"
    using extractLoop_stream [OF segs, of "[]"] extractLoop_truncated [OF tail that]
    by (simp add: extractJsonObjects_def)
  show ?thesis
    using complete truncated by blast
qed

theorem extractJsonObjects_stream_witness:
  "example_stream
     = [(''YOLO mode enabled} '', example_object1), ([CHR 0x0A, CHR 0x22], example_object2)]
   \<and> CHR ''{'' \<notin> set ''YOLO mode enabled} ''
   \<and> CHR ''{'' \<notin> set [CHR 0x0A, CHR 0x22]
   \<and> is_object example_object1
   \<and> example_parse (JSON_stringify example_object1) = Some example_object1
   \<and> example_parse (JSON_stringify example_object2) = Some example_object2
   \<and> CHR ''{'' \<notin> set '' done''
   \<and> is_object example_object2
   \<and> JSON_stringify example_object2
       = take 30 (JSON_stringify example_object2) @ drop 30 (JSON_stringify example_object2)
   \<and> take 30 (JSON_stringify example_object2) \<noteq> []
   \<and> drop 30 (JSON_stringify example_object2) \<noteq> []
   \<and> extractJsonObjects example_parse (stream_text example_stream @ '' done'')
       = ([example_object1, example_object2], [])
   \<and> extractJsonObjects example_parse
         (stream_text example_stream @ '' done'' @ take 30 (JSON_stringify example_object2))
       = ([example_object1, example_object2], take 30 (JSON_stringify example_object2))"
proof -
  have h1: "\<forall>(junk, v) \<in> set example_stream.
      CHR ''{'' \<notin> set junk \<and> is_object v \<and> example_parse (JSON_stringify v) = Some v"
    by code_simp
  have h2: "CHR ''{'' \<notin> set '' done''"
    by simp
  have h3: "is_object example_object2"
    by code_simp
  have h4: "JSON_stringify example_object2
       = take 30 (JSON_stringify example_object2) @ drop 30 (JSON_stringify example_object2)"
    by simp
  have h5: "take 30 (JSON_stringify example_object2) \<noteq> []"
    by code_simp
  have h6: "drop 30 (JSON_stringify example_object2) \<noteq> []"
    by code_simp
  have objs: "map snd example_stream = [example_object1, example_object2]"
    by (simp add: example_stream_def)
  have p1: "example_parse (JSON_stringify example_object1) = Some example_object1"
    and p2: "example_parse (JSON_stringify example_object2) = Some example_object2"
    and o1: "is_object example_object1"
    using h1 by (simp_all add: example_stream_def)
  have facts: "example_stream
     = [(''YOLO mode enabled} '', example_object1), ([CHR 0x0A, CHR 0x22], example_object2)]"
    by (simp add: example_stream_def)
  show ?thesis
    using facts p1 p2 o1 h2 h3 h4 h5 h6 objs
      extractJsonObjects_stream [OF h1 h2, of example_object2
        "take 30 (JSON_stringify example_object2)" "drop 30 (JSON_stringify example_object2)"]
    by simp
qed


end
